theory Spec2Isabelle
  imports Main
begin

section \<open>Strings, metadata values and documents\<close>

text \<open>
  A Python \<open>str\<close> is a sequence of Unicode code points and \<open>len\<close> counts code points,
  so a string is modelled as a list of code points. ASCII literals of the source are
  written through \<open>asc\<close>; the Chinese literals are written out as code points.
\<close>

type_synonym ustr = "nat list"

definition asc :: "string \<Rightarrow> ustr" where
  "asc s = map of_char s"

definition NL :: nat where
  "NL = 10"

text \<open>
  \<open>str.isspace\<close>, which decides what \<open>str.strip()\<close> removes and what the pattern
  \<open>\\s\<close> matches on a \<open>str\<close>: the Unicode white space characters.
\<close>

definition py_isspace :: "nat \<Rightarrow> bool" where
  "py_isspace c \<longleftrightarrow>
     (9 \<le> c \<and> c \<le> 13) \<or> (28 \<le> c \<and> c \<le> 32) \<or> c = 133 \<or> c = 160 \<or> c = 5760 \<or>
     (8192 \<le> c \<and> c \<le> 8202) \<or> c = 8232 \<or> c = 8233 \<or> c = 8239 \<or> c = 8287 \<or> c = 12288"

definition py_strip :: "ustr \<Rightarrow> ustr" where
  "py_strip s = rev (dropWhile py_isspace (rev (dropWhile py_isspace s)))"

text \<open>
  \<open>str.lower()\<close>. The ASCII letters are written out. The case tables of the Python
  runtime for the other code points are not part of the repository: \<open>tbl s i\<close> is what
  the character at position \<open>i\<close> of \<open>s\<close> lower-cases to (it sees the whole string, since
  the lower case of a capital sigma depends on its position in the word).
\<close>

definition ascii_lower :: "nat \<Rightarrow> nat" where
  "ascii_lower c = (if 65 \<le> c \<and> c \<le> 90 then c + 32 else c)"

definition py_lower :: "(ustr \<Rightarrow> nat \<Rightarrow> ustr) \<Rightarrow> ustr \<Rightarrow> ustr" where
  "py_lower tbl s =
     concat (map (\<lambda>i. if s ! i < 128 then [ascii_lower (s ! i)] else tbl s i) [0..<length s])"

section \<open>Query router\<close>

text \<open>
  \<open>GenerationIntegrationModule.query_router\<close>. The chain that renders the prompt and
  calls the generation backend is external: \<open>backend query\<close> is the raw text it returns.
  The router trims it, lower-cases it and keeps it only if it is one of the three labels.
\<close>

definition route_labels :: "ustr list" where
  "route_labels = [asc ''list'', asc ''detail'', asc ''general'']"

definition query_router :: "(ustr \<Rightarrow> nat \<Rightarrow> ustr) \<Rightarrow> (ustr \<Rightarrow> ustr) \<Rightarrow> ustr \<Rightarrow> ustr" where
  "query_router tbl backend query =
     (let result = py_lower tbl (py_strip (backend query))
      in if result \<in> set route_labels then result else asc ''general'')"


section \<open>Filter extractor\<close>

text \<open>\<open>prefix in s\<close> at the head of \<open>s\<close>, and Python's \<open>sub in s\<close> on strings.\<close>

fun py_startswith :: "ustr \<Rightarrow> ustr \<Rightarrow> bool" where
  "py_startswith s [] = True"
| "py_startswith [] (p # ps) = False"
| "py_startswith (c # cs) (p # ps) = (c = p \<and> py_startswith cs ps)"

fun py_contains :: "ustr \<Rightarrow> ustr \<Rightarrow> bool" where
  "py_contains [] sub = (sub = [])"
| "py_contains (c # cs) sub = (py_startswith (c # cs) sub \<or> py_contains cs sub)"

text \<open>
  \<open>DataPreparationModule.CATEGORY_MAPPING\<close>, in the order of the source, and
  \<open>CATEGORY_LABELS = list(set(CATEGORY_MAPPING.values()))\<close>: the iteration order of a
  Python set of strings is not determined by the program, so the label list is any list
  that holds each of the six labels once.
\<close>

definition CATEGORY_MAPPING :: "(string \<times> ustr) list" where
  "CATEGORY_MAPPING =
     [(''fracture'', [0x9AA8, 0x6298]),
      (''hemangioma'', [0x8840, 0x7BA1, 0x7624]),
      (''infection'', [0x611F, 0x67D3]),
      (''intervertebral'', [0x690E, 0x95F4, 0x76D8, 0x95EE, 0x9898]),
      (''malignant_tumor'', [0x6076, 0x6027, 0x80BF, 0x7624]),
      (''others'', [0x5176, 0x4ED6, 0x7C7B, 0x578B, 0x75BE, 0x75C5])]"

definition is_CATEGORY_LABELS :: "ustr list \<Rightarrow> bool" where
  "is_CATEGORY_LABELS ls \<longleftrightarrow> distinct ls \<and> set ls = set (map snd CATEGORY_MAPPING)"

text \<open>
  \<open>RecipeRAGSystem._extract_filters_from_query\<close>; \<open>category_keywords\<close> is what
  \<open>get_supported_categories()\<close> returns, the label list. The loop stops at the first label
  found in the query.
\<close>

fun extract_filters_from_query :: "ustr list \<Rightarrow> ustr \<Rightarrow> (string \<rightharpoonup> ustr)" where
  "extract_filters_from_query [] query = Map.empty"
| "extract_filters_from_query (cat # cats) query =
     (if py_contains query cat then [''category'' \<mapsto> cat]
      else extract_filters_from_query cats query)"

section \<open>Context composer\<close>

datatype mval = MStr ustr | MInt int

record Document =
  page_content :: ustr
  metadata :: "string \<rightharpoonup> mval"

text \<open>\<open>str(n)\<close> for an integer, as an f-string renders it.\<close>

fun digits_of :: "nat \<Rightarrow> ustr" where
  "digits_of n = (if n < 10 then [48 + n] else digits_of (n div 10) @ [48 + n mod 10])"

declare digits_of.simps [simp del]

definition py_str_int :: "int \<Rightarrow> ustr" where
  "py_str_int i = (if i < 0 then 45 # digits_of (nat (- i)) else digits_of (nat i))"

fun py_format :: "mval \<Rightarrow> ustr" where
  "py_format (MStr s) = s"
| "py_format (MInt i) = py_str_int i"

fun py_join :: "ustr \<Rightarrow> ustr list \<Rightarrow> ustr" where
  "py_join sep [] = []"
| "py_join sep [x] = x"
| "py_join sep (x # y # ys) = x @ sep @ py_join sep (y # ys)"

text \<open>The block \<open>doc_text\<close> that \<open>_build_context\<close> forms for the \<open>i\<close>-th document.\<close>

definition metadata_info :: "nat \<Rightarrow> Document \<Rightarrow> ustr" where
  "metadata_info i doc =
     (let m0 = [0x3010, 0x6CBB, 0x7597, 0x65B9, 0x6848, 0x20] @ digits_of i @ [0x3011];
          m1 = (case metadata doc ''case_report_id'' of
                  Some v \<Rightarrow> m0 @ [0x20] @ py_format v | None \<Rightarrow> m0);
          m2 = (case metadata doc ''category'' of
                  Some v \<Rightarrow> m1 @ [0x20, 0x7C, 0x20, 0x5206, 0x7C7B, 0x3A, 0x20] @ py_format v
                | None \<Rightarrow> m1)
      in m2)"

definition doc_text :: "nat \<Rightarrow> Document \<Rightarrow> ustr" where
  "doc_text i doc = metadata_info i doc @ [NL] @ page_content doc @ [NL]"

text \<open>
  The loop of \<open>_build_context\<close> over \<open>enumerate(docs, 1)\<close>, with its two variables
  \<open>context_parts\<close> and \<open>current_length\<close>; \<open>break\<close> returns what has been collected.
\<close>

fun build_loop :: "nat \<Rightarrow> nat \<Rightarrow> Document list \<Rightarrow> ustr list \<Rightarrow> nat \<Rightarrow> ustr list" where
  "build_loop max_length i [] context_parts current_length = context_parts"
| "build_loop max_length i (doc # docs) context_parts current_length =
     (if current_length + length (doc_text i doc) > max_length then context_parts
      else build_loop max_length (Suc i) docs (context_parts @ [doc_text i doc])
             (current_length + length (doc_text i doc)))"

definition no_info_placeholder :: ustr where
  "no_info_placeholder = [0x6682, 0x65E0, 0x76F8, 0x5173, 0x75BE, 0x75C5, 0x4FE1, 0x606F, 0x3002]"

definition separator :: ustr where
  "separator = [NL] @ replicate 50 61"

definition build_context :: "Document list \<Rightarrow> nat \<Rightarrow> ustr" where
  "build_context docs max_length =
     (if docs = [] then no_info_placeholder
      else separator @ py_join [NL] (build_loop max_length 1 docs [] 0))"

text \<open>The blocks of a document list, numbered from \<open>i\<close>: what the loop would form for each.\<close>

fun blocks_from :: "nat \<Rightarrow> Document list \<Rightarrow> ustr list" where
  "blocks_from i [] = []"
| "blocks_from i (doc # docs) = doc_text i doc # blocks_from (Suc i) docs"

definition total_length :: "ustr list \<Rightarrow> nat" where
  "total_length bs = sum_list (map length bs)"

section \<open>Parent resolver\<close>

datatype error = ValueError ustr | KeyError string | AttributeError string | BackendError ustr

text \<open>Truth value of a metadata value, as \<open>if parent_id:\<close> tests it.\<close>

fun py_truthy :: "mval \<Rightarrow> bool" where
  "py_truthy (MStr s) = (s \<noteq> [])"
| "py_truthy (MInt i) = (i \<noteq> 0)"

text \<open>
  A Python dict keeps its keys in the order of their first insertion; assigning to a key
  that is present keeps its place. It is modelled as an association list.
\<close>

fun od_set :: "'k \<Rightarrow> 'v \<Rightarrow> ('k \<times> 'v) list \<Rightarrow> ('k \<times> 'v) list" where
  "od_set k v [] = [(k, v)]"
| "od_set k v (p # ps) = (if fst p = k then (k, v) # ps else p # od_set k v ps)"

definition od_get :: "('k \<times> nat) list \<Rightarrow> 'k \<Rightarrow> nat" where
  "od_get d k = (case map_of d k of None \<Rightarrow> 0 | Some n \<Rightarrow> n)"

text \<open>
  \<open>sorted(xs, key=f, reverse=True)\<close>: a stable sort in descending order of the key, which
  keeps elements of equal key in their original order (the list is reversed, sorted
  stably in ascending order and reversed again).
\<close>

definition py_sorted_reverse :: "('a \<Rightarrow> nat) \<Rightarrow> 'a list \<Rightarrow> 'a list" where
  "py_sorted_reverse f xs = rev (sort_key f (rev xs))"

text \<open>
  \<open>DataPreparationModule.get_parent_documents\<close> (flat corpus). The first loop fills
  \<open>parent_relevance\<close> (the count of fragments per parent identifier) and
  \<open>parent_docs_map\<close> (the first document of \<open>self.documents\<close> with that identifier, if any).
\<close>

fun collect_parents ::
  "Document list \<Rightarrow> Document list \<Rightarrow> (mval \<times> nat) list \<Rightarrow> (mval \<rightharpoonup> Document) \<Rightarrow>
   (mval \<times> nat) list \<times> (mval \<rightharpoonup> Document)" where
  "collect_parents documents [] parent_relevance parent_docs_map =
     (parent_relevance, parent_docs_map)"
| "collect_parents documents (chunk # chunks) parent_relevance parent_docs_map =
     (case metadata chunk ''parent_id'' of
        None \<Rightarrow> collect_parents documents chunks parent_relevance parent_docs_map
      | Some parent_id \<Rightarrow>
          if py_truthy parent_id then
            collect_parents documents chunks
              (od_set parent_id (od_get parent_relevance parent_id + 1) parent_relevance)
              (if parent_docs_map parent_id \<noteq> None then parent_docs_map
               else (case find (\<lambda>doc. metadata doc ''parent_id'' = Some parent_id) documents of
                       None \<Rightarrow> parent_docs_map
                     | Some doc \<Rightarrow> parent_docs_map(parent_id \<mapsto> doc)))
          else collect_parents documents chunks parent_relevance parent_docs_map)"

definition get_parent_documents :: "Document list \<Rightarrow> Document list \<Rightarrow> Document list" where
  "get_parent_documents documents child_chunks =
     (let (parent_relevance, parent_docs_map) =
            collect_parents documents child_chunks [] Map.empty;
          sorted_parent_ids =
            py_sorted_reverse (\<lambda>x. od_get parent_relevance x) (map fst parent_relevance)
      in List.map_filter parent_docs_map sorted_parent_ids)"

text \<open>
  \<open>GuidelineDataPreparationModule.get_parent_documents\<close> (hierarchical corpus). The dict
  comprehension over \<open>self.documents\<close> raises \<open>KeyError\<close> on a document without
  \<open>parent_id\<close>, and a later document replaces an earlier one with the same identifier.
  The loop appends a parent the first time its identifier is met; nothing is counted or
  sorted.
\<close>

fun guideline_parent_map :: "Document list \<Rightarrow> (mval \<rightharpoonup> Document) \<Rightarrow> error + (mval \<rightharpoonup> Document)" where
  "guideline_parent_map [] parent_map = Inr parent_map"
| "guideline_parent_map (doc # docs) parent_map =
     (case metadata doc ''parent_id'' of
        None \<Rightarrow> Inl (KeyError ''parent_id'')
      | Some p \<Rightarrow> guideline_parent_map docs (parent_map(p \<mapsto> doc)))"

fun guideline_loop ::
  "(mval \<rightharpoonup> Document) \<Rightarrow> Document list \<Rightarrow> mval set \<Rightarrow> Document list \<Rightarrow> Document list" where
  "guideline_loop parent_map [] parent_ids retrieved_parents = retrieved_parents"
| "guideline_loop parent_map (chunk # chunks) parent_ids retrieved_parents =
     (case metadata chunk ''parent_id'' of
        None \<Rightarrow> guideline_loop parent_map chunks parent_ids retrieved_parents
      | Some p_id \<Rightarrow>
          if py_truthy p_id \<and> p_id \<notin> parent_ids then
            (case parent_map p_id of
               None \<Rightarrow> guideline_loop parent_map chunks parent_ids retrieved_parents
             | Some parent_doc \<Rightarrow>
                 guideline_loop parent_map chunks (insert p_id parent_ids)
                   (retrieved_parents @ [parent_doc]))
          else guideline_loop parent_map chunks parent_ids retrieved_parents)"

definition guideline_get_parent_documents ::
  "Document list \<Rightarrow> Document list \<Rightarrow> error + Document list" where
  "guideline_get_parent_documents documents child_chunks =
     (case guideline_parent_map documents Map.empty of
        Inl e \<Rightarrow> Inl e
      | Inr parent_map \<Rightarrow> Inr (guideline_loop parent_map child_chunks {} []))"

text \<open>
  The vocabulary of the properties: the parent identifiers that the fragments reference, in
  input order (an absent or false identifier references nothing); the relevance count of
  a parent; the position at which a parent is first met; a parent that the document set
  resolves.
\<close>

definition referenced_parents :: "Document list \<Rightarrow> mval list" where
  "referenced_parents chunks =
     concat (map (\<lambda>c. case metadata c ''parent_id'' of
                         None \<Rightarrow> []
                       | Some p \<Rightarrow> if py_truthy p then [p] else []) chunks)"

definition relevance_count :: "Document list \<Rightarrow> mval \<Rightarrow> nat" where
  "relevance_count chunks p = count_list (referenced_parents chunks) p"

definition first_met :: "Document list \<Rightarrow> mval \<Rightarrow> nat" where
  "first_met chunks p = length (takeWhile (\<lambda>x. x \<noteq> p) (referenced_parents chunks))"

definition resolvable :: "Document list \<Rightarrow> mval \<Rightarrow> bool" where
  "resolvable documents p \<longleftrightarrow> (\<exists>doc \<in> set documents. metadata doc ''parent_id'' = Some p)"

text \<open>One step of each of the two dictionaries of the first loop, for a referenced parent.\<close>

definition relevance_step :: "(mval \<times> nat) list \<Rightarrow> mval \<Rightarrow> (mval \<times> nat) list" where
  "relevance_step parent_relevance p = od_set p (od_get parent_relevance p + 1) parent_relevance"

definition docs_map_step :: "Document list \<Rightarrow> (mval \<rightharpoonup> Document) \<Rightarrow> mval \<Rightarrow> (mval \<rightharpoonup> Document)" where
  "docs_map_step documents parent_docs_map p =
     (if parent_docs_map p \<noteq> None then parent_docs_map
      else (case find (\<lambda>doc. metadata doc ''parent_id'' = Some p) documents of
              None \<Rightarrow> parent_docs_map
            | Some doc \<Rightarrow> parent_docs_map(p \<mapsto> doc)))"

text \<open>One step of the loop of the hierarchical resolver, for a referenced parent.\<close>

definition guideline_step ::
  "(mval \<rightharpoonup> Document) \<Rightarrow> mval set \<times> Document list \<Rightarrow> mval \<Rightarrow> mval set \<times> Document list" where
  "guideline_step parent_map st p =
     (if p \<notin> fst st then
        (case parent_map p of
           None \<Rightarrow> st
         | Some parent_doc \<Rightarrow> (insert p (fst st), snd st @ [parent_doc]))
      else st)"

section \<open>Structural chunker (flat corpus)\<close>

text \<open>
  The state of a \<open>DataPreparationModule\<close> that chunking reads and writes, with the log
  records it emits and the number of identifiers drawn so far. \<open>uuid.uuid4()\<close> is a source
  of identifiers outside the program: \<open>uuid n\<close> is the \<open>n\<close>-th identifier it hands out.
  \<open>MarkdownHeaderTextSplitter.split_text\<close> belongs to a third-party library and is a
  parameter \<open>split_text\<close>: it returns the chunks of a text or raises.
\<close>

datatype log_record =
  NoHeadersWarning | NotSplitWarning | SplitFailedWarning

record data_module =
  self_documents :: "Document list"
  self_chunks :: "Document list"
  self_parent_child_map :: "ustr \<rightharpoonup> mval"
  uuid_drawn :: nat
  log :: "log_record list"

fun split_on :: "nat \<Rightarrow> ustr \<Rightarrow> ustr list" where
  "split_on c [] = [[]]"
| "split_on c (x # xs) =
     (if x = c then [] # split_on c xs
      else (case split_on c xs of [] \<Rightarrow> [[x]] | l # ls \<Rightarrow> (x # l) # ls))"

text \<open>
  \<open>has_headers\<close>: whether a line of the first 200 characters starts, after trimming,
  with \<open>#\<close>. It decides a warning only.
\<close>

definition has_headers :: "ustr \<Rightarrow> bool" where
  "has_headers content =
     (\<exists>line \<in> set (split_on NL (take 200 content)). py_startswith (py_strip line) [35])"

text \<open>
  The inner loop over \<open>enumerate(md_chunks)\<close>: each chunk gets a fresh identifier, the
  parent's metadata and its own four entries, and the map records child to parent.
\<close>

fun stamp_chunks ::
  "(nat \<Rightarrow> ustr) \<Rightarrow> Document \<Rightarrow> mval \<Rightarrow> int \<Rightarrow> Document list \<Rightarrow> data_module \<Rightarrow>
   Document list \<times> data_module" where
  "stamp_chunks uuid doc parent_id i [] s = ([], s)"
| "stamp_chunks uuid doc parent_id i (chunk # md_chunks) s =
     (let child_id = uuid (uuid_drawn s);
          chunk' = chunk\<lparr>metadata :=
                     (metadata chunk ++ metadata doc)
                       (''chunk_id'' \<mapsto> MStr child_id, ''parent_id'' \<mapsto> parent_id,
                        ''doc_type'' \<mapsto> MStr (asc ''child''), ''chunk_index'' \<mapsto> MInt i)\<rparr>;
          s' = s\<lparr>self_parent_child_map := (self_parent_child_map s)(child_id \<mapsto> parent_id),
                 uuid_drawn := Suc (uuid_drawn s)\<rparr>;
          (rest, s'') = stamp_chunks uuid doc parent_id (i + 1) md_chunks s'
      in (chunk' # rest, s''))"

text \<open>
  The body of the loop of \<open>_markdown_header_split\<close> for one document. The \<open>try\<close> block
  can raise where the splitter raises and where the document has no \<open>parent_id\<close>; the
  handler logs a warning and appends the document itself. An appended document is the
  parent object itself (kept with its index in \<open>self.documents\<close>), not a copy.
\<close>

definition split_document ::
  "(ustr \<Rightarrow> error + Document list) \<Rightarrow> (nat \<Rightarrow> ustr) \<Rightarrow> nat \<Rightarrow> Document \<Rightarrow> data_module \<Rightarrow>
   (Document \<times> nat option) list \<times> data_module" where
  "split_document split_text uuid idx doc s =
     (let s1 = (if has_headers (page_content doc) then s
                else s\<lparr>log := log s @ [NoHeadersWarning]\<rparr>)
      in case split_text (page_content doc) of
           Inl e \<Rightarrow> ([(doc, Some idx)], s1\<lparr>log := log s1 @ [SplitFailedWarning]\<rparr>)
         | Inr md_chunks \<Rightarrow>
             (let s2 = (if length md_chunks \<le> 1 then s1\<lparr>log := log s1 @ [NotSplitWarning]\<rparr>
                        else s1)
              in case metadata doc ''parent_id'' of
                   None \<Rightarrow> ([(doc, Some idx)], s2\<lparr>log := log s2 @ [SplitFailedWarning]\<rparr>)
                 | Some parent_id \<Rightarrow>
                     (let (stamped, s3) = stamp_chunks uuid doc parent_id 0 md_chunks s2
                      in (map (\<lambda>c. (c, None)) stamped, s3))))"

fun markdown_header_split ::
  "(ustr \<Rightarrow> error + Document list) \<Rightarrow> (nat \<Rightarrow> ustr) \<Rightarrow> nat \<Rightarrow> Document list \<Rightarrow> data_module \<Rightarrow>
   (Document \<times> nat option) list \<times> data_module" where
  "markdown_header_split split_text uuid idx [] s = ([], s)"
| "markdown_header_split split_text uuid idx (doc # docs) s =
     (let (cs, s') = split_document split_text uuid idx doc s;
          (rest, s'') = markdown_header_split split_text uuid (Suc idx) docs s'
      in (cs @ rest, s''))"

text \<open>
  The loop of \<open>chunk_documents\<close> over \<open>enumerate(chunks)\<close>: a chunk without \<open>chunk_id\<close>
  gets a fresh one, and every chunk gets \<open>batch_index\<close> and \<open>chunk_size\<close>. Nothing is
  written to \<open>parent_child_map\<close> here. A chunk that is a parent object is updated in
  \<open>self.documents\<close> as well.
\<close>

fun add_base_metadata ::
  "(nat \<Rightarrow> ustr) \<Rightarrow> int \<Rightarrow> (Document \<times> nat option) list \<Rightarrow> data_module \<Rightarrow>
   Document list \<times> data_module" where
  "add_base_metadata uuid i [] s = ([], s)"
| "add_base_metadata uuid i ((chunk, alias) # chunks) s =
     (let (m1, s1) =
            (if metadata chunk ''chunk_id'' = None
             then ((metadata chunk)(''chunk_id'' \<mapsto> MStr (uuid (uuid_drawn s))),
                   s\<lparr>uuid_drawn := Suc (uuid_drawn s)\<rparr>)
             else (metadata chunk, s));
          chunk' = chunk\<lparr>metadata :=
                     m1(''batch_index'' \<mapsto> MInt i,
                        ''chunk_size'' \<mapsto> MInt (int (length (page_content chunk))))\<rparr>;
          s2 = (case alias of
                  None \<Rightarrow> s1
                | Some idx \<Rightarrow> s1\<lparr>self_documents := (self_documents s1)[idx := chunk']\<rparr>);
          (rest, s3) = add_base_metadata uuid (i + 1) chunks s2
      in (chunk' # rest, s3))"

definition chunk_documents ::
  "(ustr \<Rightarrow> error + Document list) \<Rightarrow> (nat \<Rightarrow> ustr) \<Rightarrow> data_module \<Rightarrow>
   error + (Document list \<times> data_module)" where
  "chunk_documents split_text uuid s =
     (if self_documents s = [] then Inl (ValueError [0x8BF7, 0x5148, 0x52A0, 0x8F7D, 0x6587, 0x6863])
      else (let (chunks, s1) = markdown_header_split split_text uuid 0 (self_documents s) s;
                (chunks', s2) = add_base_metadata uuid 0 chunks s1
            in Inr (chunks', s2\<lparr>self_chunks := chunks'\<rparr>)))"

text \<open>
  The texts of the fragments that one document yields: the texts of the splitter's chunks,
  or the whole text when the \<open>try\<close> block raises.
\<close>

definition fragment_texts :: "(ustr \<Rightarrow> error + Document list) \<Rightarrow> Document \<Rightarrow> ustr list" where
  "fragment_texts split_text doc =
     (case split_text (page_content doc) of
        Inl e \<Rightarrow> [page_content doc]
      | Inr md_chunks \<Rightarrow>
          if metadata doc ''parent_id'' = None then [page_content doc]
          else map page_content md_chunks)"



section \<open>The answer operation\<close>

text \<open>
  \<open>RecipeRAGSystem.ask_question\<close>. The retrieval module and the generation backend are
  collaborators outside the repository: their operations are fields of the module
  records, and each returns a value or raises. \<open>route_invoke\<close> and \<open>rewrite_invoke\<close> are
  the \<open>chain.invoke\<close> calls of \<open>query_router\<close> and \<open>query_rewrite\<close>; \<open>complete\<close> is the
  call of a blocking answer generator, given the prompt template, the question and the
  composed context. A streaming generator is a Python generator function: the call
  returns the suspended generator and runs nothing, so it cannot raise.
\<close>

datatype prompt_kind = BasicPrompt | StepByStepPrompt

datatype answer = Text ustr | Stream prompt_kind ustr "Document list"

record retrieval =
  hybrid_search :: "ustr \<Rightarrow> nat \<Rightarrow> error + Document list"
  metadata_filtered_search :: "ustr \<Rightarrow> (string \<rightharpoonup> ustr) \<Rightarrow> nat \<Rightarrow> error + Document list"

record generation =
  lower_table :: "ustr \<Rightarrow> nat \<Rightarrow> ustr"
  route_invoke :: "ustr \<Rightarrow> error + ustr"
  rewrite_invoke :: "ustr \<Rightarrow> error + ustr"
  complete :: "prompt_kind \<Rightarrow> ustr \<Rightarrow> ustr \<Rightarrow> error + ustr"

record rag_system =
  case_report_data_module :: "data_module option"
  case_report_retrieval_module :: "retrieval option"
  guideline_retrieval_module :: "retrieval option"
  generation_module :: "generation option"
  top_k :: nat
  category_keywords :: "ustr list"

definition no_knowledge_base_message :: ustr where
  "no_knowledge_base_message = [0x8BF7, 0x5148, 0x6784, 0x5EFA, 0x77E5, 0x8BC6, 0x5E93]"

definition not_found_message :: ustr where
  "not_found_message =
     [0x62B1, 0x6B49, 0xFF0C, 0x6CA1, 0x6709, 0x627E, 0x5230, 0x76F8, 0x5173, 0x7684, 0x75BE,
      0x75C5, 0x4FE1, 0x606F, 0x3002, 0x8BF7, 0x5C1D, 0x8BD5, 0x5176, 0x4ED6, 0x75BE, 0x75C5,
      0x540D, 0x79F0, 0x6216, 0x5173, 0x952E, 0x8BCD, 0x3002]"

text \<open>Step 1: the route label, or the failure of the backend.\<close>

definition route_step :: "generation \<Rightarrow> ustr \<Rightarrow> error + ustr" where
  "route_step gm question =
     (case route_invoke gm question of
        Inl e \<Rightarrow> Inl e
      | Inr raw \<Rightarrow> Inr (query_router (lower_table gm) (\<lambda>_. raw) question))"

text \<open>Step 2: a \<open>list\<close> query is kept as it is; any other is rewritten by the backend (and trimmed).\<close>

definition rewrite_step :: "generation \<Rightarrow> ustr \<Rightarrow> ustr \<Rightarrow> error + ustr" where
  "rewrite_step gm route_type question =
     (if route_type = asc ''list'' then Inr question
      else (case rewrite_invoke gm question of
              Inl e \<Rightarrow> Inl e
            | Inr response \<Rightarrow> Inr (py_strip response)))"

text \<open>Step 3: filtered search when the question names a category, hybrid search otherwise.\<close>

definition retrieve_step :: "rag_system \<Rightarrow> retrieval \<Rightarrow> ustr \<Rightarrow> ustr \<Rightarrow> error + Document list" where
  "retrieve_step s rm rewritten_query question =
     (let filters = extract_filters_from_query (category_keywords s) question
      in if filters \<noteq> Map.empty
         then metadata_filtered_search rm rewritten_query filters (top_k s)
         else hybrid_search rm rewritten_query (top_k s))"

text \<open>Step 5: the parents of the fragments and the answer in the mode of the route.\<close>

definition answer_step ::
  "rag_system \<Rightarrow> generation \<Rightarrow> ustr \<Rightarrow> ustr \<Rightarrow> bool \<Rightarrow> Document list \<Rightarrow> error + answer" where
  "answer_step s gm route_type question stream relevant_chunks =
     (case case_report_data_module s of
        None \<Rightarrow> Inl (AttributeError ''get_parent_documents'')
      | Some dm \<Rightarrow>
          (let relevant_docs = get_parent_documents (self_documents dm) relevant_chunks;
               kind = (if route_type = asc ''detail'' then StepByStepPrompt else BasicPrompt)
           in if stream then Inr (Stream kind question relevant_docs)
              else (case complete gm kind question (build_context relevant_docs 2000) of
                      Inl e \<Rightarrow> Inl e
                    | Inr response \<Rightarrow> Inr (Text response))))"

definition ask_question :: "rag_system \<Rightarrow> ustr \<Rightarrow> bool \<Rightarrow> error + answer" where
  "ask_question s question stream =
     (case (case_report_retrieval_module s, generation_module s, guideline_retrieval_module s) of
        (Some rm, Some gm, Some grm) \<Rightarrow>
          (case route_step gm question of
             Inl e \<Rightarrow> Inl e
           | Inr route_type \<Rightarrow>
               (case rewrite_step gm route_type question of
                  Inl e \<Rightarrow> Inl e
                | Inr rewritten_query \<Rightarrow>
                    (case retrieve_step s rm rewritten_query question of
                       Inl e \<Rightarrow> Inl e
                     | Inr relevant_chunks \<Rightarrow>
                         if relevant_chunks = [] then Inr (Text not_found_message)
                         else answer_step s gm route_type question stream relevant_chunks)))
      | _ \<Rightarrow> Inl (ValueError no_knowledge_base_message))"

section \<open>Content normalizer\<close>

text \<open>
  The regular expressions of the two cleaning functions, each read as the matcher that
  \<open>re\<close> runs. Under \<open>re.IGNORECASE\<close> a lower-case ASCII letter of a pattern matches itself,
  its capital and the few other characters whose lower case it is.
\<close>

definition ci_match :: "nat \<Rightarrow> nat \<Rightarrow> bool" where
  "ci_match c p \<longleftrightarrow>
     c = p \<or> (97 \<le> p \<and> p \<le> 122 \<and> c + 32 = p) \<or>
     (p = 105 \<and> (c = 0x130 \<or> c = 0x131)) \<or> (p = 115 \<and> c = 0x17F) \<or> (p = 107 \<and> c = 0x212A)"

fun ci_startswith :: "ustr \<Rightarrow> ustr \<Rightarrow> bool" where
  "ci_startswith s [] = True"
| "ci_startswith [] (p # ps) = False"
| "ci_startswith (c # cs) (p # ps) = (ci_match c p \<and> ci_startswith cs ps)"

text \<open>
  \<open>#+\\s*(references|bibliography|...).*\<close> matched at the head of \<open>rest\<close>: one or more
  \<open>#\<close>, any white space, then one of the section names; the final \<open>.*\<close> always matches.
\<close>

definition ref_heading_at :: "ustr list \<Rightarrow> ustr \<Rightarrow> bool" where
  "ref_heading_at names rest \<longleftrightarrow>
     rest \<noteq> [] \<and> hd rest = 35 \<and>
     (\<exists>w \<in> set names. ci_startswith (dropWhile py_isspace (dropWhile (\<lambda>c. c = 35) rest)) w)"

text \<open>
  \<open>re.split(ref_pattern, text, flags=re.MULTILINE)[0]\<close>: the text before the first match;
  \<open>^\<close> matches at the start of the text and after every newline (\<open>bol\<close>).
\<close>

fun cut_references :: "ustr list \<Rightarrow> bool \<Rightarrow> ustr \<Rightarrow> ustr" where
  "cut_references names bol [] = []"
| "cut_references names bol (c # cs) =
     (if bol \<and> ref_heading_at names (c # cs) then []
      else c # cut_references names (c = NL) cs)"

definition academic_ref_names :: "ustr list" where
  "academic_ref_names =
     [asc ''references'', asc ''bibliography'', asc ''literature cited'', asc ''works cited'']"

definition guideline_ref_names :: "ustr list" where
  "guideline_ref_names = [asc ''references'', asc ''bibliography'', asc ''literature cited'']"

text \<open>
  \<open>re.sub(r'<[^>]+>', '', text)\<close>: at a \<open><\<close> followed by at least one character other
  than \<open>>\<close> and then a \<open>>\<close>, everything up to that \<open>>\<close> is removed.
\<close>

function remove_html_tags :: "ustr \<Rightarrow> ustr" where
  "remove_html_tags [] = []"
| "remove_html_tags (c # cs) =
     (if c = 60 \<and> takeWhile (\<lambda>x. x \<noteq> 62) cs \<noteq> [] \<and> dropWhile (\<lambda>x. x \<noteq> 62) cs \<noteq> []
      then remove_html_tags (tl (dropWhile (\<lambda>x. x \<noteq> 62) cs))
      else c # remove_html_tags cs)"
  by pat_completeness auto
termination
proof (relation "measure length")
  show "wf (measure length)" by simp
next
  fix c :: nat and cs :: ustr
  have "length (tl (dropWhile (\<lambda>x. x \<noteq> 62) cs)) \<le> length cs"
    using length_dropWhile_le[of "\<lambda>x. x \<noteq> 62" cs] by simp
  then show "(tl (dropWhile (\<lambda>x. x \<noteq> 62) cs), c # cs) \<in> measure length" by simp
next
  fix c :: nat and cs :: ustr
  show "(cs, c # cs) \<in> measure length" by simp
qed

text \<open>
  \<open><br\\s*/?>\<close> at the head of the text: what follows the tag, if the tag is there.
\<close>

definition br_tag_rest :: "ustr \<Rightarrow> ustr option" where
  "br_tag_rest text =
     (if py_startswith text [60, 98, 114] then
        (let r = dropWhile py_isspace (drop 3 text);
             r' = (if r \<noteq> [] \<and> hd r = 47 then tl r else r)
         in if r' \<noteq> [] \<and> hd r' = 62 then Some (tl r') else None)
      else None)"

text \<open>
  \<open>.*?\\)\<close> and \<open>.*?\\]\\(.*?\\)\<close> from the head of the text (the dot matches no newline):
  the caption that the first \<open>.*?\<close> takes, and what follows the match.
\<close>

fun find_close_paren :: "ustr \<Rightarrow> ustr option" where
  "find_close_paren [] = None"
| "find_close_paren (c # cs) =
     (if c = 41 then Some cs else if c = NL then None else find_close_paren cs)"

fun match_image_tail :: "ustr \<Rightarrow> (ustr \<times> ustr) option" where
  "match_image_tail [] = None"
| "match_image_tail (c # cs) =
     (case (if c = 93 \<and> cs \<noteq> [] \<and> hd cs = 40 then find_close_paren (tl cs) else None) of
        Some r \<Rightarrow> Some ([], r)
      | None \<Rightarrow>
          if c = NL then None
          else (case match_image_tail cs of
                  None \<Rightarrow> None
                | Some (alt, r) \<Rightarrow> Some (c # alt, r)))"

definition match_image :: "ustr \<Rightarrow> (ustr \<times> ustr) option" where
  "match_image text = (if py_startswith text [33, 91] then match_image_tail (drop 2 text) else None)"

lemma find_close_paren_shorter: "find_close_paren xs = Some r \<Longrightarrow> length r < length xs"
proof (induction xs)
  case Nil
  then show ?case by simp
next
  case (Cons c cs)
  then show ?case by (auto split: if_splits)
qed

lemma match_image_tail_shorter: "match_image_tail xs = Some (alt, r) \<Longrightarrow> length r < length xs"
proof (induction xs arbitrary: alt r)
  case Nil
  then show ?case by simp
next
  case (Cons c cs)
  show ?case
  proof (cases "c = 93 \<and> cs \<noteq> [] \<and> hd cs = 40 \<and> find_close_paren (tl cs) \<noteq> None")
    case True
    then obtain r' where r': "find_close_paren (tl cs) = Some r'" by blast
    then have "r = r'" using Cons.prems True by simp
    moreover have "length r' < length (tl cs)" using find_close_paren_shorter[OF r'] .
    ultimately show ?thesis by simp
  next
    case False
    then have n: "(if c = 93 \<and> cs \<noteq> [] \<and> hd cs = 40 then find_close_paren (tl cs) else None) = None"
      by auto
    obtain alt' where "match_image_tail cs = Some (alt', r)"
      using Cons.prems unfolding match_image_tail.simps n
      by (auto split: if_splits option.splits)
    then have "length r < length cs" using Cons.IH by blast
    then show ?thesis by simp
  qed
qed

lemma match_image_shorter: "match_image xs = Some (alt, r) \<Longrightarrow> length r < length xs"
proof -
  assume a: "match_image xs = Some (alt, r)"
  then have "match_image_tail (drop 2 xs) = Some (alt, r)"
    by (simp add: match_image_def split: if_splits)
  then have "length r < length (drop 2 xs)" by (rule match_image_tail_shorter)
  then show ?thesis by simp
qed

lemma br_tag_rest_shorter: "br_tag_rest xs = Some r \<Longrightarrow> length r < length xs"
proof -
  assume a: "br_tag_rest xs = Some r"
  define q where "q = dropWhile py_isspace (drop 3 xs)"
  define q' where "q' = (if q \<noteq> [] \<and> hd q = 47 then tl q else q)"
  have p: "py_startswith xs [60, 98, 114]" and r: "r = tl q'" and ne: "q' \<noteq> []"
    using a by (auto simp: br_tag_rest_def Let_def q_def q'_def split: if_splits)
  have "length q \<le> length (drop 3 xs)" unfolding q_def by (rule length_dropWhile_le)
  moreover have "length q' \<le> length q" by (simp add: q'_def)
  moreover have "length r < length q'" using r ne by (cases q') simp_all
  ultimately show ?thesis by simp
qed

text \<open>
  \<open>re.sub(r'!\\[.*?\\]\\(.*?\\)', '', text)\<close> of the flat-corpus cleaner removes each image
  reference; the hierarchical cleaner's \<open>re.sub(r'!\\[(.*?)\\]\\(.*?\\)', r'\\1', text)\<close>
  keeps its caption; \<open>re.sub(r'<br\\s*/?>', '\\n', text)\<close> turns a line-break tag into a
  newline. Each scans for the leftmost match and goes on after it.
\<close>

function remove_md_images :: "ustr \<Rightarrow> ustr" where
  "remove_md_images [] = []"
| "remove_md_images (c # cs) =
     (case match_image (c # cs) of
        Some (alt, r) \<Rightarrow> remove_md_images r
      | None \<Rightarrow> c # remove_md_images cs)"
  by pat_completeness auto
termination
  by (relation "measure length") (auto dest!: match_image_shorter)

function keep_image_captions :: "ustr \<Rightarrow> ustr" where
  "keep_image_captions [] = []"
| "keep_image_captions (c # cs) =
     (case match_image (c # cs) of
        Some (alt, r) \<Rightarrow> alt @ keep_image_captions r
      | None \<Rightarrow> c # keep_image_captions cs)"
  by pat_completeness auto
termination
  by (relation "measure length") (auto dest!: match_image_shorter)

function replace_br :: "ustr \<Rightarrow> ustr" where
  "replace_br [] = []"
| "replace_br (c # cs) =
     (case br_tag_rest (c # cs) of
        Some r \<Rightarrow> NL # replace_br r
      | None \<Rightarrow> c # replace_br cs)"
  by pat_completeness auto
termination
  by (relation "measure length") (auto dest!: br_tag_rest_shorter)

text \<open>
  \<open>re.sub(r'\\n{3,}', '\\n\\n', text)\<close>: every run of three or more newlines becomes two.
  Dropping the first newline of any three in a row, from left to right, leaves exactly
  two of each such run.
\<close>

fun collapse_newlines :: "ustr \<Rightarrow> ustr" where
  "collapse_newlines (a # b # c # cs) =
     (if a = NL \<and> b = NL \<and> c = NL then collapse_newlines (b # c # cs)
      else a # collapse_newlines (b # c # cs))"
| "collapse_newlines xs = xs"

text \<open>
  \<open>clean_academic_markdown\<close> and \<open>clean_guideline_markdown\<close>: the markup steps (reference
  truncation, tags, images), then newline collapsing and trimming.
\<close>

definition academic_markup_steps :: "ustr \<Rightarrow> ustr" where
  "academic_markup_steps text =
     remove_md_images (remove_html_tags (cut_references academic_ref_names True text))"

definition clean_academic_markdown :: "ustr \<Rightarrow> ustr" where
  "clean_academic_markdown text =
     (if text = [] then []
      else py_strip (collapse_newlines (academic_markup_steps text)))"

definition guideline_markup_steps :: "ustr \<Rightarrow> ustr" where
  "guideline_markup_steps text =
     keep_image_captions
       (remove_html_tags (replace_br (cut_references guideline_ref_names True text)))"

definition clean_guideline_markdown :: "ustr \<Rightarrow> ustr" where
  "clean_guideline_markdown text =
     (if text = [] then []
      else py_strip (collapse_newlines (guideline_markup_steps text)))"

text \<open>Three newlines in a row somewhere in a text.\<close>

definition has_triple_newline :: "ustr \<Rightarrow> bool" where
  "has_triple_newline xs \<longleftrightarrow> (\<exists>pre post. xs = pre @ [NL, NL, NL] @ post)"

section \<open>Path metadata resolver (hierarchical corpus)\<close>

definition is_ascii_lower :: "nat \<Rightarrow> bool" where
  "is_ascii_lower c \<longleftrightarrow> 97 \<le> c \<and> c \<le> 122"

definition is_ascii_upper :: "nat \<Rightarrow> bool" where
  "is_ascii_upper c \<longleftrightarrow> 65 \<le> c \<and> c \<le> 90"

text \<open>
  \<open>_camel_case_split\<close>: the matches of
  \<open>.+?(?:(?<=[a-z])(?=[A-Z])|(?<=[A-Z])(?=[A-Z][a-z])|$)\<close> that \<open>re.finditer\<close> yields,
  joined by spaces. A match is the shortest non-empty run of characters other than a
  newline that ends at a boundary: before \<open>c\<close> (followed by \<open>cs\<close>) after the character
  \<open>l\<close>, or at the end of the text, or before a newline that ends the text (\<open>$\<close>). A run
  that meets a newline before any boundary is no match, and the search goes on after the
  newline. \<open>cur\<close> is the run read so far.
\<close>

definition camel_boundary :: "nat \<Rightarrow> nat \<Rightarrow> ustr \<Rightarrow> bool" where
  "camel_boundary l c cs \<longleftrightarrow>
     (is_ascii_lower l \<and> is_ascii_upper c) \<or>
     (is_ascii_upper l \<and> is_ascii_upper c \<and> cs \<noteq> [] \<and> is_ascii_lower (hd cs)) \<or>
     (c = NL \<and> cs = [])"

fun camel_matches :: "ustr \<Rightarrow> ustr \<Rightarrow> ustr list" where
  "camel_matches cur [] = (if cur = [] then [] else [cur])"
| "camel_matches cur (c # cs) =
     (if cur \<noteq> [] \<and> camel_boundary (last cur) c cs
      then cur # (if c = NL then camel_matches [] cs else camel_matches [c] cs)
      else if c = NL then camel_matches [] cs
      else camel_matches (cur @ [c]) cs)"

definition camel_case_split :: "ustr \<Rightarrow> ustr" where
  "camel_case_split identifier = py_join [32] (camel_matches [] identifier)"

text \<open>
  The chapter folder: \<open>split('_', 1)\<close> and \<open>replace('_', ' ')\<close> when it holds an
  underscore, the index \<open>"0"\<close> and the folder name otherwise.
\<close>

definition chapter_of :: "ustr \<Rightarrow> ustr \<times> ustr" where
  "chapter_of raw_chapter_folder =
     (if 95 \<in> set raw_chapter_folder
      then (takeWhile (\<lambda>x. x \<noteq> 95) raw_chapter_folder,
            map (\<lambda>x. if x = 95 then 32 else x) (tl (dropWhile (\<lambda>x. x \<noteq> 95) raw_chapter_folder)))
      else (asc ''0'', raw_chapter_folder))"

text \<open>
  \<open>\\d\<close> on a \<open>str\<close> matches every Unicode decimal digit, and \<open>int\<close> reads them. The
  ASCII digits are written out; \<open>ud\<close> is the digit table of the Python runtime for the
  other code points. \<open>re.search(r'part(\\d+)', file_name, re.IGNORECASE)\<close> finds the
  leftmost \<open>part\<close>, in any case, that a digit follows, and its group is the longest run
  of digits there.
\<close>

definition py_decimal :: "(nat \<Rightarrow> nat option) \<Rightarrow> nat \<Rightarrow> nat option" where
  "py_decimal ud c = (if 48 \<le> c \<and> c \<le> 57 then Some (c - 48) else if c < 128 then None else ud c)"

definition is_digit :: "(nat \<Rightarrow> nat option) \<Rightarrow> nat \<Rightarrow> bool" where
  "is_digit ud c \<longleftrightarrow> py_decimal ud c \<noteq> None"

fun search_part :: "(nat \<Rightarrow> nat option) \<Rightarrow> ustr \<Rightarrow> ustr option" where
  "search_part ud [] = None"
| "search_part ud (c # cs) =
     (if ci_startswith (c # cs) (asc ''part'') \<and> takeWhile (is_digit ud) (drop 4 (c # cs)) \<noteq> []
      then Some (takeWhile (is_digit ud) (drop 4 (c # cs)))
      else search_part ud cs)"

text \<open>
  \<open>int\<close> of a run of digits. \<open>max_str_digits\<close> is the interpreter's limit on the digits
  of an integer string (\<open>sys.get_int_max_str_digits()\<close>: 0 when there is none); a longer
  run raises \<open>ValueError\<close>, which is \<open>None\<close> here.
\<close>

definition py_int :: "nat \<Rightarrow> (nat \<Rightarrow> nat option) \<Rightarrow> ustr \<Rightarrow> int option" where
  "py_int max_str_digits ud ds =
     (if max_str_digits \<noteq> 0 \<and> max_str_digits < length ds then None
      else Some (foldl (\<lambda>acc d. 10 * acc +
                         int (case py_decimal ud d of None \<Rightarrow> 0 | Some v \<Rightarrow> v)) 0 ds))"

text \<open>
  \<open>_parse_path_metadata\<close>. A path is the list of its parts. \<open>relative_to\<close> raises when
  the file is not under the data root; the handler returns \<open>{"is_valid": False}\<close>, as the
  depth check does, and as it does when \<open>int\<close> raises: all three are \<open>None\<close> here.
\<close>

record path_metadata =
  book_name :: ustr
  chapter_index :: ustr
  chapter_name :: ustr
  part_index :: int
  source_file :: ustr
  hierarchy_string :: ustr

definition relative_to :: "ustr list \<Rightarrow> ustr list \<Rightarrow> ustr list option" where
  "relative_to file_path data_path =
     (if take (length data_path) file_path = data_path
      then Some (drop (length data_path) file_path) else None)"

definition parse_path_metadata ::
  "nat \<Rightarrow> (nat \<Rightarrow> nat option) \<Rightarrow> ustr list \<Rightarrow> ustr list \<Rightarrow> path_metadata option" where
  "parse_path_metadata max_str_digits ud data_path file_path =
     (case relative_to file_path data_path of
        None \<Rightarrow> None
      | Some parts \<Rightarrow>
          if length parts < 3 then None
          else
            (let raw_book_name = parts ! 0;
                 book = camel_case_split raw_book_name;
                 raw_chapter_folder = parts ! 1;
                 (ch_index, ch_name) = chapter_of raw_chapter_folder;
                 file_name = last parts;
                 part = (case search_part ud file_name of None \<Rightarrow> asc ''1'' | Some d \<Rightarrow> d)
             in case py_int max_str_digits ud part of
                  None \<Rightarrow> None
                | Some n \<Rightarrow>
                    Some \<lparr>book_name = book, chapter_index = ch_index, chapter_name = ch_name,
                          part_index = n, source_file = file_name,
                          hierarchy_string =
                            book @ asc '' > '' @ ch_index @ asc ''. '' @ ch_name @
                            asc '' > Part '' @ part\<rparr>))"

text \<open>
  The vocabulary of the properties: a text with a space inserted at every boundary between an
  ASCII lower-case and an upper-case letter, and between an upper-case letter and an
  upper-case letter that a lower-case letter follows; a \<open>part\<close> token at position \<open>i\<close> of a
  file name with a digit right after it.
\<close>

fun spaced_at_boundaries :: "ustr \<Rightarrow> ustr" where
  "spaced_at_boundaries (a # b # cs) =
     (if (is_ascii_lower a \<and> is_ascii_upper b) \<or>
         (is_ascii_upper a \<and> is_ascii_upper b \<and> cs \<noteq> [] \<and> is_ascii_lower (hd cs))
      then a # 32 # spaced_at_boundaries (b # cs)
      else a # spaced_at_boundaries (b # cs))"
| "spaced_at_boundaries xs = xs"

definition part_token_at :: "(nat \<Rightarrow> nat option) \<Rightarrow> ustr \<Rightarrow> nat \<Rightarrow> bool" where
  "part_token_at ud file_name i \<longleftrightarrow>
     ci_startswith (drop i file_name) (asc ''part'') \<and>
     i + 4 < length file_name \<and> is_digit ud (file_name ! (i + 4))"

section \<open>Example inputs\<close>

text \<open>A document with 890 characters of text and no metadata: its block has 900 characters.\<close>

definition doc890 :: Document where
  "doc890 = \<lparr>page_content = replicate 890 120, metadata = Map.empty\<rparr>"

definition doc2000 :: Document where
  "doc2000 = \<lparr>page_content = replicate 2000 120, metadata = Map.empty\<rparr>"

text \<open>A document with both labels that the block header shows.\<close>

definition labelled_doc :: Document where
  "labelled_doc =
     \<lparr>page_content = asc ''text'',
      metadata = [''case_report_id'' \<mapsto> MStr (asc ''case7''), ''category'' \<mapsto> MStr (asc ''spine'')]\<rparr>"

text \<open>The six category labels in the order of the mapping, one of the orders the label list can have.\<close>

definition labels_in_mapping_order :: "ustr list" where
  "labels_in_mapping_order = map snd CATEGORY_MAPPING"

text \<open>Parent documents and fragments that reference them through \<open>parent_id\<close>.\<close>

definition parent_doc :: "ustr \<Rightarrow> Document" where
  "parent_doc name =
     \<lparr>page_content = name,
      metadata = [''parent_id'' \<mapsto> MStr name, ''doc_type'' \<mapsto> MStr (asc ''parent'')]\<rparr>"

definition fragment_of :: "ustr \<Rightarrow> Document" where
  "fragment_of name =
     \<lparr>page_content = asc ''text'',
      metadata = [''parent_id'' \<mapsto> MStr name, ''doc_type'' \<mapsto> MStr (asc ''child'')]\<rparr>"

definition docs_ABC :: "Document list" where
  "docs_ABC = [parent_doc [65], parent_doc [66], parent_doc [67]]"

definition fragments_AABAC :: "Document list" where
  "fragments_AABAC =
     [fragment_of [65], fragment_of [65], fragment_of [66], fragment_of [65], fragment_of [67]]"

definition fragments_BAA :: "Document list" where
  "fragments_BAA = [fragment_of [66], fragment_of [65], fragment_of [65]]"

text \<open>
  A module that holds the loaded documents, before chunking; a splitter that fails on
  every text; a splitter that finds nothing to split and returns the text whole, as its
  only chunk; identifiers \<open>id-0\<close>, \<open>id-1\<close>, ...
\<close>

definition module_with :: "Document list \<Rightarrow> data_module" where
  "module_with docs =
     \<lparr>self_documents = docs, self_chunks = [], self_parent_child_map = Map.empty,
      uuid_drawn = 0, log = []\<rparr>"

definition failing_split :: "ustr \<Rightarrow> error + Document list" where
  "failing_split t = Inl (BackendError (asc ''split failed''))"


definition example_uuid :: "nat \<Rightarrow> ustr" where
  "example_uuid n = asc ''id-'' @ digits_of n"

text \<open>
  A system whose knowledge base exists and whose retrieval finds nothing; a backend that
  answers \<open>general\<close> to the router and returns the question unchanged when rewriting.
\<close>

definition empty_retrieval :: retrieval where
  "empty_retrieval = \<lparr>hybrid_search = (\<lambda>q k. Inr []), metadata_filtered_search = (\<lambda>q f k. Inr [])\<rparr>"

definition example_generation :: generation where
  "example_generation =
     \<lparr>lower_table = (\<lambda>s i. [s ! i]),
      route_invoke = (\<lambda>q. Inr (asc ''general'')),
      rewrite_invoke = (\<lambda>q. Inr q),
      complete = (\<lambda>k q c. Inr (asc ''answer''))\<rparr>"

definition built_system :: rag_system where
  "built_system =
     \<lparr>case_report_data_module = Some (module_with docs_ABC),
      case_report_retrieval_module = Some empty_retrieval,
      guideline_retrieval_module = Some empty_retrieval,
      generation_module = Some example_generation,
      top_k = 3,
      category_keywords = labels_in_mapping_order\<rparr>"

definition fresh_system :: rag_system where
  "fresh_system =
     \<lparr>case_report_data_module = None,
      case_report_retrieval_module = None,
      guideline_retrieval_module = None,
      generation_module = Some example_generation,
      top_k = 3,
      category_keywords = labels_in_mapping_order\<rparr>"

text \<open>
  The text \<open>" # References"\<close> (a heading after a space), and a text with four newlines
  in a row and a trailing space.
\<close>

definition indented_heading :: ustr where
  "indented_heading = asc '' # References''"

definition spaced_text :: ustr where
  "spaced_text = [97, NL, NL, NL, NL, 98, 32]"

text \<open>
  The path \<open>Root/AdultIsthmicSpondylolisthesis/B_Diagnosis_Imaging/part2.md\<close> under the
  root \<open>Root\<close>; a book folder whose name holds a newline; a digit table with no digit
  outside ASCII.
\<close>

definition example_root :: "ustr list" where
  "example_root = [asc ''Root'']"

definition example_path :: "ustr list" where
  "example_path =
     [asc ''Root'', asc ''AdultIsthmicSpondylolisthesis'', asc ''B_Diagnosis_Imaging'',
      asc ''part2.md'']"

definition newline_path :: "ustr list" where
  "newline_path = [asc ''Root'', [65, NL, 66], asc ''B_Diagnosis_Imaging'', asc ''part2.md'']"

definition ascii_digits_only :: "nat \<Rightarrow> nat option" where
  "ascii_digits_only c = None"

section \<open>Properties\<close>

subsection \<open>Query router\<close>

text \<open>
  C2. For every raw backend response the router returns the trimmed, lower-cased response
  when that is exactly \<open>list\<close>, \<open>detail\<close> or \<open>general\<close>, and \<open>general\<close> for every other
  response; so its output is always one of the three route labels.
\<close>

theorem query_router_valid_label:
  "query_router tbl backend query =
     (if py_lower tbl (py_strip (backend query)) \<in> {asc ''list'', asc ''detail'', asc ''general''}
      then py_lower tbl (py_strip (backend query)) else asc ''general'')
   \<and> query_router tbl backend query \<in> {asc ''list'', asc ''detail'', asc ''general''}"
  by (simp add: query_router_def route_labels_def Let_def)

text \<open>
  A response with surrounding white space and capitals is accepted; a response with a
  trailing full stop is not one of the labels and falls back to \<open>general\<close>.
\<close>

theorem query_router_valid_label_witness:
  "query_router (\<lambda>_ _. []) (\<lambda>_. asc ''  LIST '' @ [NL]) (asc ''q'') = asc ''list'' \<and>
   query_router (\<lambda>_ _. []) (\<lambda>_. asc ''List.'') (asc ''q'') = asc ''general''"
proof -
  have a: "py_lower (\<lambda>_ _. []) (py_strip (asc ''  LIST '' @ [NL])) = asc ''list''"
    by (simp add: asc_def NL_def py_strip_def py_isspace_def py_lower_def ascii_lower_def
        upt_conv_Cons)
  have b: "py_lower (\<lambda>_ _. []) (py_strip (asc ''List.'')) = asc ''list.''"
    by (simp add: asc_def py_strip_def py_isspace_def py_lower_def ascii_lower_def upt_conv_Cons)
  have c: "asc ''list.'' \<notin> {asc ''list'', asc ''detail'', asc ''general''}"
    by (simp add: asc_def)
  show ?thesis
    using query_router_valid_label[of "\<lambda>_ _. []" "\<lambda>_. asc ''  LIST '' @ [NL]" "asc ''q''"]
      query_router_valid_label[of "\<lambda>_ _. []" "\<lambda>_. asc ''List.''" "asc ''q''"]
    unfolding a b using c by simp
qed

subsection \<open>Filter extractor\<close>

lemma py_startswith_iff: "py_startswith s p \<longleftrightarrow> (\<exists>post. s = p @ post)"
  by (induction s p rule: py_startswith.induct) auto

lemma py_contains_iff: "py_contains s sub \<longleftrightarrow> (\<exists>pre post. s = pre @ sub @ post)"
proof (induction s)
  case Nil
  then show ?case by auto
next
  case (Cons c cs)
  show ?case
  proof
    assume "py_contains (c # cs) sub"
    then consider "py_startswith (c # cs) sub" | "py_contains cs sub" by auto
    then show "\<exists>pre post. c # cs = pre @ sub @ post"
    proof cases
      case 1
      then obtain post where "c # cs = sub @ post" by (auto simp: py_startswith_iff)
      then have "c # cs = [] @ sub @ post" by simp
      then show ?thesis by blast
    next
      case 2
      then obtain pre post where "cs = pre @ sub @ post" using Cons.IH by auto
      then have "c # cs = (c # pre) @ sub @ post" by simp
      then show ?thesis by blast
    qed
  next
    assume "\<exists>pre post. c # cs = pre @ sub @ post"
    then obtain pre post where e: "c # cs = pre @ sub @ post" by blast
    show "py_contains (c # cs) sub"
    proof (cases pre)
      case Nil
      then have "py_startswith (c # cs) sub" using e by (auto simp: py_startswith_iff)
      then show ?thesis by simp
    next
      case (Cons a pre')
      then have "cs = pre' @ sub @ post" using e by simp
      then have "py_contains cs sub" using Cons.IH by blast
      then show ?thesis by simp
    qed
  qed
qed

lemma extract_none:
  "\<forall>cat \<in> set labels. \<not> py_contains query cat \<Longrightarrow>
   extract_filters_from_query labels query = Map.empty"
  by (induction labels) auto

lemma extract_first:
  "i < length labels \<Longrightarrow> py_contains query (labels ! i) \<Longrightarrow>
   \<forall>j<i. \<not> py_contains query (labels ! j) \<Longrightarrow>
   extract_filters_from_query labels query = [''category'' \<mapsto> labels ! i]"
proof (induction labels arbitrary: i)
  case Nil
  then show ?case by simp
next
  case (Cons cat cats)
  show ?case
  proof (cases i)
    case 0
    then show ?thesis using Cons.prems by simp
  next
    case (Suc k)
    have "\<forall>j<k. \<not> py_contains query (cats ! j)"
    proof (intro allI impI)
      fix j assume "j < k"
      then have "Suc j < i" using Suc by simp
      then have "\<not> py_contains query ((cat # cats) ! Suc j)" using Cons.prems(3) by blast
      then show "\<not> py_contains query (cats ! j)" by simp
    qed
    moreover have "k < length cats" "py_contains query (cats ! k)"
      using Cons.prems(1,2) Suc by simp_all
    ultimately have "extract_filters_from_query cats query = [''category'' \<mapsto> cats ! k]"
      using Cons.IH[of k] by blast
    moreover have "\<not> py_contains query cat" using Cons.prems(3) Suc by auto
    ultimately show ?thesis using Suc by simp
  qed
qed

text \<open>
  C9. For every question and every order of the label list, the filter extractor returns
  the filter \<open>{category: label}\<close> for the first label of the list that occurs in the
  question as a contiguous substring (no tokenization, no case folding), and the empty
  filter set when no label of the list occurs in the question.
\<close>

theorem extract_filters_first_label:
  "((\<forall>cat \<in> set labels. \<not> (\<exists>pre post. query = pre @ cat @ post)) \<longrightarrow>
      extract_filters_from_query labels query = Map.empty) \<and>
   (i < length labels \<and> (\<exists>pre post. query = pre @ labels ! i @ post) \<and>
    (\<forall>j<i. \<not> (\<exists>pre post. query = pre @ labels ! j @ post)) \<longrightarrow>
      extract_filters_from_query labels query = [''category'' \<mapsto> labels ! i])"
  using extract_none[of labels query] extract_first[of i labels query]
  unfolding py_contains_iff by blast

lemma labels_in_mapping_order_ok: "is_CATEGORY_LABELS labels_in_mapping_order"
  by (simp add: is_CATEGORY_LABELS_def labels_in_mapping_order_def CATEGORY_MAPPING_def)

text \<open>
  The question holds the third label and then the first one: the first label of the list
  wins, not the first in the question. A question with no label gives no filter.
\<close>

theorem extract_filters_first_label_witness:
  "is_CATEGORY_LABELS labels_in_mapping_order \<and>
   extract_filters_from_query labels_in_mapping_order [0x611F, 0x67D3, 0x9AA8, 0x6298]
     = [''category'' \<mapsto> [0x9AA8, 0x6298]] \<and>
   extract_filters_from_query labels_in_mapping_order (asc ''MRI'') = Map.empty"
proof -
  have l0: "labels_in_mapping_order ! 0 = [0x9AA8, 0x6298]"
    by (simp add: labels_in_mapping_order_def CATEGORY_MAPPING_def)
  have a: "\<exists>pre post. [0x611F, 0x67D3, 0x9AA8, 0x6298] = pre @ labels_in_mapping_order ! 0 @ post"
    unfolding l0 py_contains_iff[symmetric] by simp
  have b: "\<forall>cat \<in> set labels_in_mapping_order. \<not> (\<exists>pre post. asc ''MRI'' = pre @ cat @ post)"
    unfolding py_contains_iff[symmetric]
    by (simp add: labels_in_mapping_order_def CATEGORY_MAPPING_def asc_def)
  have c: "(0::nat) < length labels_in_mapping_order"
    by (simp add: labels_in_mapping_order_def CATEGORY_MAPPING_def)
  show ?thesis
    using extract_filters_first_label[of labels_in_mapping_order "[0x611F, 0x67D3, 0x9AA8, 0x6298]" 0]
      extract_filters_first_label[of labels_in_mapping_order "asc ''MRI''" 0]
      a b c l0 labels_in_mapping_order_ok
    by simp
qed

subsection \<open>Context composer\<close>

lemma build_loop_greedy:
  "\<exists>k\<le>length docs. build_loop L i docs parts cur = parts @ take k (blocks_from i docs) \<and>
     (0 < k \<longrightarrow> cur + total_length (take k (blocks_from i docs)) \<le> L) \<and>
     (k < length docs \<longrightarrow> L < cur + total_length (take (Suc k) (blocks_from i docs)))"
proof (induction docs arbitrary: i parts cur)
  case Nil
  then show ?case by simp
next
  case (Cons doc docs)
  show ?case
  proof (cases "cur + length (doc_text i doc) > L")
    case True
    then have "build_loop L i (doc # docs) parts cur = parts @ take 0 (blocks_from i (doc # docs))"
      and "L < cur + total_length (take (Suc 0) (blocks_from i (doc # docs)))"
      by (simp_all add: total_length_def)
    then show ?thesis by blast
  next
    case False
    obtain k where k: "k \<le> length docs"
      "build_loop L (Suc i) docs (parts @ [doc_text i doc]) (cur + length (doc_text i doc))
         = (parts @ [doc_text i doc]) @ take k (blocks_from (Suc i) docs)"
      "0 < k \<longrightarrow> (cur + length (doc_text i doc)) + total_length (take k (blocks_from (Suc i) docs)) \<le> L"
      "k < length docs \<longrightarrow>
         L < (cur + length (doc_text i doc)) + total_length (take (Suc k) (blocks_from (Suc i) docs))"
      using Cons.IH[of "Suc i" "parts @ [doc_text i doc]" "cur + length (doc_text i doc)"] by blast
    have a: "Suc k \<le> length (doc # docs)" using k(1) by simp
    have b: "build_loop L i (doc # docs) parts cur = parts @ take (Suc k) (blocks_from i (doc # docs))"
      using False k(2) by simp
    have c: "cur + total_length (take (Suc k) (blocks_from i (doc # docs))) \<le> L"
      using False k(3) by (cases k) (simp_all add: total_length_def add.assoc)
    have d: "Suc k < length (doc # docs) \<longrightarrow>
               L < cur + total_length (take (Suc (Suc k)) (blocks_from i (doc # docs)))"
      using k(4) by (simp add: total_length_def add.assoc)
    show ?thesis using a b c d by blast
  qed
qed

lemma build_loop_three:
  "length (doc_text i a) = 900 \<Longrightarrow> length (doc_text (Suc i) b) = 900 \<Longrightarrow>
   length (doc_text (Suc (Suc i)) c) = 900 \<Longrightarrow>
   build_loop 2000 i [a, b, c] [] 0 = [doc_text i a, doc_text (Suc i) b]"
  by simp

lemma build_loop_two:
  "length (doc_text i a) = 900 \<Longrightarrow> length (doc_text (Suc i) b) = 900 \<Longrightarrow>
   build_loop 2000 i [a, b] [] 0 = [doc_text i a, doc_text (Suc i) b]"
  by simp

lemma Suc_1_2: "Suc 1 = 2"
  by simp

lemma Suc_2_3: "Suc 2 = 3"
  by simp

lemma doc_text_parts:
  "doc_text i doc =
     [0x3010, 0x6CBB, 0x7597, 0x65B9, 0x6848, 0x20] @ digits_of i @ [0x3011] @
     (case metadata doc ''case_report_id'' of None \<Rightarrow> [] | Some v \<Rightarrow> 0x20 # py_format v) @
     (case metadata doc ''category'' of
        None \<Rightarrow> []
      | Some v \<Rightarrow> [0x20, 0x7C, 0x20, 0x5206, 0x7C7B, 0x3A, 0x20] @ py_format v) @
     [NL] @ page_content doc @ [NL]"
  by (simp add: doc_text_def metadata_info_def Let_def split: option.splits)

lemma doc_text_labelled:
  "doc_text 12 labelled_doc =
     [0x3010, 0x6CBB, 0x7597, 0x65B9, 0x6848, 32, 49, 50, 0x3011, 32, 99, 97, 115, 101, 55,
      32, 124, 32, 0x5206, 0x7C7B, 58, 32, 115, 112, 105, 110, 101, 10, 116, 101, 120, 116, 10]"
  by (simp add: doc_text_parts labelled_doc_def digits_of.simps asc_def NL_def)

lemma blocks_from_map:
  "blocks_from i docs = map (\<lambda>j. doc_text (i + j) (docs ! j)) [0..<length docs]"
proof (induction docs arbitrary: i)
  case Nil
  then show ?case by simp
next
  case (Cons d ds)
  have "map (\<lambda>j. doc_text (i + j) ((d # ds) ! j)) [0..<length (d # ds)]
          = doc_text i d # map (\<lambda>j. doc_text (i + Suc j) (ds ! j)) [0..<length ds]"
    by (simp add: upt_conv_Cons map_Suc_upt[symmetric] del: upt_Suc)
  then show ?case using Cons.IH[of "Suc i"] by simp
qed

lemma take_blocks_from:
  "k \<le> length docs \<Longrightarrow>
   take k (blocks_from 1 docs) = map (\<lambda>j. doc_text (Suc j) (docs ! j)) [0..<k]"
  by (simp add: blocks_from_map take_map)

lemma py_join_concat: "py_join sep (x # xs) = x @ concat (map (\<lambda>y. sep @ y) xs)"
  by (induction xs arbitrary: x) simp_all

lemma joined_blocks:
  "py_join [NL] (map f [0..<k]) =
     (if k = 0 then [] else f 0 @ concat (map (\<lambda>j. [NL] @ f j) [1..<k]))"
proof (cases k)
  case 0
  then show ?thesis by simp
next
  case (Suc n)
  have "map f [0..<Suc n] = f 0 # map f [1..<Suc n]"
    by (simp add: upt_conv_Cons del: upt_Suc)
  then show ?thesis using Suc by (simp add: py_join_concat comp_def del: upt_Suc)
qed

text \<open>
  C3. The block of the \<open>i\<close>-th document is its index marker (with \<open>i\<close> in decimal), the
  case identifier and the category when the metadata has them (a text as it is, a number
  in decimal), a newline, the full text and a newline. The context
  composer packs the blocks greedily in input order under the budget: the output is the
  separator (a newline and fifty \<open>=\<close>) followed by the first \<open>k\<close> blocks, whole and joined by
  newlines, where the first \<open>k\<close> blocks fit the budget and the first \<open>k + 1\<close> do not (or
  there is no further document); a block that would exceed the budget is left out whole
  and ends the packing. With three blocks of 900 characters and a budget of 2000 exactly
  the first two blocks are included, the result is no longer than 2000 plus the 51
  characters of the separator, and the output is what it is without the third document.
\<close>

theorem build_context_greedy_packing:
  "doc_text i doc =
     [0x3010, 0x6CBB, 0x7597, 0x65B9, 0x6848, 0x20] @ digits_of i @ [0x3011] @
     (case metadata doc ''case_report_id'' of None \<Rightarrow> [] | Some v \<Rightarrow> 0x20 # py_format v) @
     (case metadata doc ''category'' of
        None \<Rightarrow> []
      | Some v \<Rightarrow> [0x20, 0x7C, 0x20, 0x5206, 0x7C7B, 0x3A, 0x20] @ py_format v) @
     [NL] @ page_content doc @ [NL] \<and>
   digits_of i = (if i < 10 then [48 + i] else digits_of (i div 10) @ [48 + i mod 10]) \<and>
   py_format (MStr t) = t \<and>
   py_format (MInt n) = (if n < 0 then 45 # digits_of (nat (- n)) else digits_of (nat n)) \<and>
   doc_text 12 labelled_doc =
     [0x3010, 0x6CBB, 0x7597, 0x65B9, 0x6848, 32, 49, 50, 0x3011, 32, 99, 97, 115, 101, 55,
      32, 124, 32, 0x5206, 0x7C7B, 58, 32, 115, 112, 105, 110, 101, 10, 116, 101, 120, 116, 10] \<and>
   (docs \<noteq> [] \<longrightarrow>
      (\<exists>k\<le>length docs.
          build_context docs L =
            [10] @ replicate 50 61 @
            (if k = 0 then []
             else doc_text 1 (docs ! 0) @
                  concat (map (\<lambda>j. [10] @ doc_text (Suc j) (docs ! j)) [1..<k])) \<and>
          sum_list (map (\<lambda>j. length (doc_text (Suc j) (docs ! j))) [0..<k]) \<le> L \<and>
          (k < length docs \<longrightarrow>
             L < sum_list (map (\<lambda>j. length (doc_text (Suc j) (docs ! j))) [0..<Suc k])))) \<and>
   (length (doc_text 1 d1) = 900 \<and> length (doc_text 2 d2) = 900 \<and> length (doc_text 3 d3) = 900 \<longrightarrow>
      build_context [d1, d2, d3] 2000 = [10] @ replicate 50 61 @ doc_text 1 d1 @ [10] @ doc_text 2 d2 \<and>
      length (build_context [d1, d2, d3] 2000) \<le> 2000 + 51 \<and>
      build_context [d1, d2, d3] 2000 = build_context [d1, d2] 2000)"
proof (intro conjI impI)
  show "doc_text i doc =
     [0x3010, 0x6CBB, 0x7597, 0x65B9, 0x6848, 0x20] @ digits_of i @ [0x3011] @
     (case metadata doc ''case_report_id'' of None \<Rightarrow> [] | Some v \<Rightarrow> 0x20 # py_format v) @
     (case metadata doc ''category'' of
        None \<Rightarrow> []
      | Some v \<Rightarrow> [0x20, 0x7C, 0x20, 0x5206, 0x7C7B, 0x3A, 0x20] @ py_format v) @
     [NL] @ page_content doc @ [NL]"
    by (rule doc_text_parts)
next
  show "digits_of i = (if i < 10 then [48 + i] else digits_of (i div 10) @ [48 + i mod 10])"
    by (rule digits_of.simps)
next
  show "py_format (MStr t) = t" by simp
next
  show "py_format (MInt n) = (if n < 0 then 45 # digits_of (nat (- n)) else digits_of (nat n))"
    by (simp add: py_str_int_def)
next
  show "doc_text 12 labelled_doc =
     [0x3010, 0x6CBB, 0x7597, 0x65B9, 0x6848, 32, 49, 50, 0x3011, 32, 99, 97, 115, 101, 55,
      32, 124, 32, 0x5206, 0x7C7B, 58, 32, 115, 112, 105, 110, 101, 10, 116, 101, 120, 116, 10]"
    by (rule doc_text_labelled)
next
  assume ne: "docs \<noteq> []"
  obtain k where k: "k \<le> length docs"
    "build_loop L 1 docs [] 0 = [] @ take k (blocks_from 1 docs)"
    "0 < k \<longrightarrow> 0 + total_length (take k (blocks_from 1 docs)) \<le> L"
    "k < length docs \<longrightarrow> L < 0 + total_length (take (Suc k) (blocks_from 1 docs))"
    using build_loop_greedy[of docs L 1 "[]" 0] by blast
  let ?f = "\<lambda>j. doc_text (Suc j) (docs ! j)"
  have t: "take k (blocks_from 1 docs) = map ?f [0..<k]"
    using k(1) by (rule take_blocks_from)
  have a: "build_context docs L =
            [10] @ replicate 50 61 @
            (if k = 0 then [] else ?f 0 @ concat (map (\<lambda>j. [10] @ ?f j) [1..<k]))"
  proof -
    have "build_context docs L = separator @ py_join [NL] (map ?f [0..<k])"
      using ne k(2) unfolding t by (simp add: build_context_def)
    then have "build_context docs L =
        separator @ (if k = 0 then [] else ?f 0 @ concat (map (\<lambda>j. [NL] @ ?f j) [1..<k]))"
      unfolding joined_blocks[of ?f k] .
    then show ?thesis by (simp add: separator_def NL_def)
  qed
  have b: "sum_list (map (\<lambda>j. length (?f j)) [0..<k]) \<le> L"
  proof (cases k)
    case 0
    then show ?thesis by simp
  next
    case (Suc n)
    then show ?thesis using k(3) unfolding t by (simp add: total_length_def comp_def del: upt_Suc)
  qed
  have c: "k < length docs \<longrightarrow> L < sum_list (map (\<lambda>j. length (?f j)) [0..<Suc k])"
  proof
    assume lt: "k < length docs"
    then have "take (Suc k) (blocks_from 1 docs) = map ?f [0..<Suc k]"
      using take_blocks_from[of "Suc k" docs] by simp
    then show "L < sum_list (map (\<lambda>j. length (?f j)) [0..<Suc k])"
      using k(4) lt by (simp add: total_length_def comp_def del: upt_Suc)
  qed
  show "\<exists>k\<le>length docs.
          build_context docs L =
            [10] @ replicate 50 61 @
            (if k = 0 then []
             else doc_text 1 (docs ! 0) @
                  concat (map (\<lambda>j. [10] @ doc_text (Suc j) (docs ! j)) [1..<k])) \<and>
          sum_list (map (\<lambda>j. length (doc_text (Suc j) (docs ! j))) [0..<k]) \<le> L \<and>
          (k < length docs \<longrightarrow>
             L < sum_list (map (\<lambda>j. length (doc_text (Suc j) (docs ! j))) [0..<Suc k]))"
    using k(1) a b c by (intro exI[of _ k]) simp
next
  assume h: "length (doc_text 1 d1) = 900 \<and> length (doc_text 2 d2) = 900 \<and> length (doc_text 3 d3) = 900"
  have l3: "build_loop 2000 1 [d1, d2, d3] [] 0 = [doc_text 1 d1, doc_text 2 d2]"
    using build_loop_three[of 1 d1 d2 d3, unfolded Suc_1_2 Suc_2_3] h by blast
  have l2: "build_loop 2000 1 [d1, d2] [] 0 = [doc_text 1 d1, doc_text 2 d2]"
    using build_loop_two[of 1 d1 d2, unfolded Suc_1_2] h by blast
  show c1: "build_context [d1, d2, d3] 2000 =
              [10] @ replicate 50 61 @ doc_text 1 d1 @ [10] @ doc_text 2 d2"
    unfolding build_context_def l3 by (simp add: separator_def NL_def)
  have "length ([10] @ replicate 50 61 @ doc_text 1 d1 @ [10] @ doc_text 2 d2) = 1852"
    using h by simp
  then show "length (build_context [d1, d2, d3] 2000) \<le> 2000 + 51"
    unfolding c1 by simp
  show "build_context [d1, d2, d3] 2000 = build_context [d1, d2] 2000"
    unfolding build_context_def l3 l2 by simp
qed

lemma doc890_block_1: "length (doc_text 1 doc890) = 900"
  by (simp add: doc_text_def metadata_info_def digits_of.simps doc890_def)

lemma doc890_block_2: "length (doc_text 2 doc890) = 900"
  by (simp add: doc_text_def metadata_info_def digits_of.simps doc890_def)

lemma doc890_block_3: "length (doc_text 3 doc890) = 900"
  by (simp add: doc_text_def metadata_info_def digits_of.simps doc890_def)

text \<open>
  Three documents of 890 characters each and no label: the output is the separator and
  the first two blocks, 1852 characters.
\<close>

lemma doc890_text: "doc_text i doc890 =
    [0x3010, 0x6CBB, 0x7597, 0x65B9, 0x6848, 0x20] @ digits_of i @ [0x3011, 10] @ replicate 890 120 @ [10]"
  by (simp add: doc_text_parts doc890_def NL_def)

theorem build_context_greedy_packing_witness:
  "[doc890, doc890, doc890] \<noteq> [] \<and>
   length (doc_text 1 doc890) = 900 \<and> length (doc_text 2 doc890) = 900 \<and>
   length (doc_text 3 doc890) = 900 \<and>
   build_context [doc890, doc890, doc890] 2000
     = [10] @ replicate 50 61 @
       [0x3010, 0x6CBB, 0x7597, 0x65B9, 0x6848, 0x20, 49, 0x3011, 10] @ replicate 890 120 @ [10] @
       [10] @
       [0x3010, 0x6CBB, 0x7597, 0x65B9, 0x6848, 0x20, 50, 0x3011, 10] @ replicate 890 120 @ [10] \<and>
   length (build_context [doc890, doc890, doc890] 2000) = 1852 \<and>
   build_context [doc890, doc890, doc890] 2000 = build_context [doc890, doc890] 2000"
proof -
  note t = build_context_greedy_packing[where docs = "[doc890, doc890, doc890]" and L = 2000
      and ?d1.0 = doc890 and ?d2.0 = doc890 and ?d3.0 = doc890 and i = 1 and doc = doc890]
  have h: "length (doc_text 1 doc890) = 900 \<and> length (doc_text 2 doc890) = 900 \<and>
           length (doc_text 3 doc890) = 900"
    using doc890_block_1 doc890_block_2 doc890_block_3 by simp
  from t h have a: "build_context [doc890, doc890, doc890] 2000 =
      [10] @ replicate 50 61 @ doc_text 1 doc890 @ [10] @ doc_text 2 doc890"
    and b: "build_context [doc890, doc890, doc890] 2000 = build_context [doc890, doc890] 2000"
    by blast+
  have d1: "doc_text 1 doc890 =
      [0x3010, 0x6CBB, 0x7597, 0x65B9, 0x6848, 0x20, 49, 0x3011, 10] @ replicate 890 120 @ [10]"
    by (simp add: doc890_text digits_of.simps)
  have d2: "doc_text 2 doc890 =
      [0x3010, 0x6CBB, 0x7597, 0x65B9, 0x6848, 0x20, 50, 0x3011, 10] @ replicate 890 120 @ [10]"
    by (simp add: doc890_text digits_of.simps)
  have c: "build_context [doc890, doc890, doc890] 2000
     = [10] @ replicate 50 61 @
       [0x3010, 0x6CBB, 0x7597, 0x65B9, 0x6848, 0x20, 49, 0x3011, 10] @ replicate 890 120 @ [10] @
       [10] @
       [0x3010, 0x6CBB, 0x7597, 0x65B9, 0x6848, 0x20, 50, 0x3011, 10] @ replicate 890 120 @ [10]"
    unfolding a d1 d2 by simp
  have l: "length (build_context [doc890, doc890, doc890] 2000) = 1852"
    unfolding c by simp
  show ?thesis using h b c l by simp
qed

text \<open>
  C10. The placeholder is returned exactly when the document list is empty. For a
  non-empty list whose first block alone exceeds the budget the composer returns only the
  separator, a newline followed by fifty \<open>=\<close> characters, with no block.
\<close>

theorem build_context_placeholder_only_when_empty:
  "(build_context docs L = no_info_placeholder \<longleftrightarrow> docs = []) \<and>
   (L < length (doc_text 1 d) \<longrightarrow> build_context (d # ds) L = NL # replicate 50 61)"
proof -
  have a: "docs \<noteq> [] \<Longrightarrow> build_context docs L \<noteq> no_info_placeholder"
    by (simp add: build_context_def no_info_placeholder_def separator_def NL_def)
  have b: "build_context [] L = no_info_placeholder"
    by (simp add: build_context_def)
  have c: "L < length (doc_text 1 d) \<Longrightarrow> build_context (d # ds) L = NL # replicate 50 61"
    by (simp add: build_context_def separator_def)
  show ?thesis using a b c by blast
qed

theorem build_context_placeholder_only_when_empty_witness:
  "(2000::nat) < length (doc_text 1 doc2000) \<and>
   build_context [doc2000, doc890] 2000 = NL # replicate 50 61 \<and>
   build_context [doc2000, doc890] 2000 \<noteq> no_info_placeholder"
proof -
  have h: "(2000::nat) < length (doc_text 1 doc2000)"
    by (simp add: doc_text_def doc2000_def)
  show ?thesis
    using h build_context_placeholder_only_when_empty[of "[doc2000, doc890]" 2000 doc2000 "[doc890]"]
    by blast
qed

subsection \<open>Parent resolver\<close>

lemma od_set_map_of: "map_of (od_set k v ps) = (map_of ps)(k \<mapsto> v)"
  by (induction ps) (auto simp: fun_eq_iff)

lemma od_set_keys:
  "map fst (od_set k v ps) = (if k \<in> set (map fst ps) then map fst ps else map fst ps @ [k])"
  by (induction ps) auto

lemma collect_parents_foldl:
  "collect_parents docs chunks rel dm =
     (foldl relevance_step rel (referenced_parents chunks),
      foldl (docs_map_step docs) dm (referenced_parents chunks))"
proof (induction chunks arbitrary: rel dm)
  case Nil
  then show ?case by (simp add: referenced_parents_def)
next
  case (Cons c cs)
  show ?case
  proof (cases "metadata c ''parent_id''")
    case None
    then show ?thesis using Cons.IH by (simp add: referenced_parents_def)
  next
    case (Some p)
    show ?thesis
    proof (cases "py_truthy p")
      case True
      have r: "referenced_parents (c # cs) = p # referenced_parents cs"
        using Some True by (simp add: referenced_parents_def)
      show ?thesis
        unfolding r using Some True Cons.IH
        by (simp add: relevance_step_def docs_map_step_def)
    next
      case False
      then show ?thesis using Some Cons.IH by (simp add: referenced_parents_def)
    qed
  qed
qed

lemma first_pos_snoc_old:
  "a \<in> set R \<Longrightarrow> length (takeWhile (\<lambda>x. x \<noteq> a) (R @ [x])) = length (takeWhile (\<lambda>x. x \<noteq> a) R)"
  by simp

lemma first_pos_in: "a \<in> set R \<Longrightarrow> length (takeWhile (\<lambda>x. x \<noteq> a) R) < length R"
  by (induction R) auto

lemma first_pos_new: "x \<notin> set R \<Longrightarrow> length (takeWhile (\<lambda>y. y \<noteq> x) (R @ [x])) = length R"
  by (induction R) auto

lemma relevance_inv:
  "distinct (map fst (foldl relevance_step [] R)) \<and>
   set (map fst (foldl relevance_step [] R)) = set R \<and>
   (\<forall>p. od_get (foldl relevance_step [] R) p = count_list R p) \<and>
   sorted_wrt (\<lambda>a b. length (takeWhile (\<lambda>x. x \<noteq> a) R) < length (takeWhile (\<lambda>x. x \<noteq> b) R))
     (map fst (foldl relevance_step [] R))"
proof (induction R rule: rev_induct)
  case Nil
  then show ?case by (simp add: od_get_def)
next
  case (snoc x R)
  let ?rel = "foldl relevance_step [] R"
  let ?rel' = "foldl relevance_step [] (R @ [x])"
  have step: "?rel' = od_set x (od_get ?rel x + 1) ?rel"
    by (simp add: relevance_step_def)
  have d: "distinct (map fst ?rel)" and s: "set (map fst ?rel) = set R"
    and c: "\<forall>p. od_get ?rel p = count_list R p"
    and o: "sorted_wrt (\<lambda>a b. length (takeWhile (\<lambda>x. x \<noteq> a) R) < length (takeWhile (\<lambda>x. x \<noteq> b) R))
              (map fst ?rel)"
    using snoc.IH by blast+
  have keys: "map fst ?rel' = (if x \<in> set R then map fst ?rel else map fst ?rel @ [x])"
    unfolding step od_set_keys using s by simp
  have g1: "distinct (map fst ?rel')" using keys d s by auto
  have g2: "set (map fst ?rel') = set (R @ [x])" using keys s by auto
  have g3: "\<forall>p. od_get ?rel' p = count_list (R @ [x]) p"
  proof
    fix p
    show "od_get ?rel' p = count_list (R @ [x]) p"
      using c[rule_format, of p] c[rule_format, of x]
      unfolding step by (simp add: od_get_def od_set_map_of)
  qed
  have o': "sorted_wrt (\<lambda>a b. length (takeWhile (\<lambda>y. y \<noteq> a) (R @ [x]))
                              < length (takeWhile (\<lambda>y. y \<noteq> b) (R @ [x]))) (map fst ?rel)"
  proof (rule sorted_wrt_mono_rel[OF _ o])
    fix a b assume "a \<in> set (map fst ?rel)" "b \<in> set (map fst ?rel)"
      and "length (takeWhile (\<lambda>x. x \<noteq> a) R) < length (takeWhile (\<lambda>x. x \<noteq> b) R)"
    then show "length (takeWhile (\<lambda>y. y \<noteq> a) (R @ [x])) < length (takeWhile (\<lambda>y. y \<noteq> b) (R @ [x]))"
      using s by (simp add: first_pos_snoc_old)
  qed
  have g4: "sorted_wrt (\<lambda>a b. length (takeWhile (\<lambda>y. y \<noteq> a) (R @ [x]))
                              < length (takeWhile (\<lambda>y. y \<noteq> b) (R @ [x]))) (map fst ?rel')"
  proof (cases "x \<in> set R")
    case True
    then show ?thesis using keys o' by simp
  next
    case False
    have "\<forall>a \<in> set (map fst ?rel). length (takeWhile (\<lambda>y. y \<noteq> a) (R @ [x]))
            < length (takeWhile (\<lambda>y. y \<noteq> x) (R @ [x]))"
      using s False by (simp add: first_pos_snoc_old first_pos_new first_pos_in)
    then show ?thesis using keys False o' by (simp add: sorted_wrt_append)
  qed
  show ?case using g1 g2 g3 g4 by blast
qed

lemma docs_map_inv:
  "foldl (docs_map_step docs) Map.empty R p =
     (if p \<in> set R then find (\<lambda>doc. metadata doc ''parent_id'' = Some p) docs else None)"
proof (induction R arbitrary: p rule: rev_induct)
  case Nil
  then show ?case by simp
next
  case (snoc x R)
  show ?case
    using snoc.IH[of p] snoc.IH[of x]
    by (auto simp: docs_map_step_def split: option.splits if_splits)
qed

lemma insort_key_lex:
  assumes "sorted_wrt (\<lambda>a b. f a < f b \<or> (f a = f b \<and> R0 a b)) ys"
    and "\<forall>y \<in> set ys. R0 x y"
  shows "sorted_wrt (\<lambda>a b. f a < f b \<or> (f a = f b \<and> R0 a b)) (insort_key f x ys)"
  using assms
proof (induction ys)
  case Nil
  then show ?case by simp
next
  case (Cons y ys)
  show ?case
  proof (cases "f x \<le> f y")
    case True
    have "\<forall>z \<in> set ys. f y \<le> f z" using Cons.prems(1) by auto
    then have "\<forall>z \<in> set (y # ys). f x < f z \<or> (f x = f z \<and> R0 x z)"
      using True Cons.prems(2) by (auto simp: le_less)
    then show ?thesis using True Cons.prems(1) by simp
  next
    case False
    have "sorted_wrt (\<lambda>a b. f a < f b \<or> (f a = f b \<and> R0 a b)) (insort_key f x ys)"
      using Cons by simp
    then show ?thesis using False Cons.prems(1) by (auto simp: set_insort_key)
  qed
qed

lemma sort_key_lex:
  "sorted_wrt R0 xs \<Longrightarrow> sorted_wrt (\<lambda>a b. f a < f b \<or> (f a = f b \<and> R0 a b)) (sort_key f xs)"
proof (induction xs)
  case Nil
  then show ?case by simp
next
  case (Cons x xs)
  then show ?case by (simp add: insort_key_lex)
qed

lemma py_sorted_reverse_lex:
  assumes "sorted_wrt R0 xs"
  shows "sorted_wrt (\<lambda>a b. f b < f a \<or> (f a = f b \<and> R0 a b)) (py_sorted_reverse f xs)"
proof -
  have "sorted_wrt (\<lambda>a b. R0 b a) (rev xs)" using assms by (simp add: sorted_wrt_rev)
  then have "sorted_wrt (\<lambda>a b. f a < f b \<or> (f a = f b \<and> R0 b a)) (sort_key f (rev xs))"
    by (rule sort_key_lex)
  then have "sorted_wrt (\<lambda>b a. f a < f b \<or> (f a = f b \<and> R0 b a)) (rev (sort_key f (rev xs)))"
    by (simp add: sorted_wrt_rev)
  then show ?thesis
    unfolding py_sorted_reverse_def by (rule sorted_wrt_mono_rel[rotated]) auto
qed

lemma py_sorted_reverse_set: "set (py_sorted_reverse f xs) = set xs"
  by (simp add: py_sorted_reverse_def)

lemma py_sorted_reverse_distinct: "distinct (py_sorted_reverse f xs) = distinct xs"
  by (simp add: py_sorted_reverse_def)

lemma flat_resolver:
  "\<exists>P. map (\<lambda>d. metadata d ''parent_id'') (get_parent_documents docs chunks) = map Some P \<and>
       set (get_parent_documents docs chunks) \<subseteq> set docs \<and> distinct P \<and>
       set P = {p \<in> set (referenced_parents chunks). resolvable docs p} \<and>
       sorted_wrt (\<lambda>a b. relevance_count chunks b < relevance_count chunks a \<or>
                          (relevance_count chunks a = relevance_count chunks b \<and>
                           first_met chunks a < first_met chunks b)) P"
proof -
  define R where "R = referenced_parents chunks"
  define rel where "rel = foldl relevance_step [] R"
  define dm where "dm = foldl (docs_map_step docs) Map.empty R"
  define S where "S = py_sorted_reverse (od_get rel) (map fst rel)"
  define P where "P = filter (\<lambda>p. dm p \<noteq> None) S"
  have res: "get_parent_documents docs chunks = map (the \<circ> dm) P"
    by (simp add: get_parent_documents_def collect_parents_foldl map_filter_def
        R_def rel_def dm_def S_def P_def)
  have inv: "distinct (map fst rel)" "set (map fst rel) = set R"
    "\<forall>p. od_get rel p = count_list R p"
    "sorted_wrt (\<lambda>a b. length (takeWhile (\<lambda>x. x \<noteq> a) R) < length (takeWhile (\<lambda>x. x \<noteq> b) R))
       (map fst rel)"
    using relevance_inv[of R] unfolding rel_def by blast+
  have dmv: "\<And>p. dm p = (if p \<in> set R then find (\<lambda>doc. metadata doc ''parent_id'' = Some p) docs
                           else None)"
    unfolding dm_def by (rule docs_map_inv)
  have cnt: "od_get rel = relevance_count chunks"
    using inv(3) by (simp add: fun_eq_iff relevance_count_def R_def)
  have dS: "distinct S" and sS: "set S = set R"
    using inv(1,2) by (simp_all add: S_def py_sorted_reverse_distinct py_sorted_reverse_set)
  have oS: "sorted_wrt (\<lambda>a b. relevance_count chunks b < relevance_count chunks a \<or>
                          (relevance_count chunks a = relevance_count chunks b \<and>
                           first_met chunks a < first_met chunks b)) S"
    using py_sorted_reverse_lex[OF inv(4), of "od_get rel"]
    unfolding S_def cnt first_met_def R_def .
  have g1: "distinct P" using dS by (simp add: P_def)
  have dm_some: "\<And>p. dm p \<noteq> None \<longleftrightarrow> p \<in> set R \<and> resolvable docs p"
  proof -
    fix p
    have "find (\<lambda>doc. metadata doc ''parent_id'' = Some p) docs \<noteq> None \<longleftrightarrow> resolvable docs p"
      by (simp add: resolvable_def find_None_iff Bex_def)
    then show "dm p \<noteq> None \<longleftrightarrow> p \<in> set R \<and> resolvable docs p"
      unfolding dmv by simp
  qed
  have g2: "set P = {p \<in> set (referenced_parents chunks). resolvable docs p}"
    using sS dm_some by (auto simp: P_def R_def)
  have g3: "sorted_wrt (\<lambda>a b. relevance_count chunks b < relevance_count chunks a \<or>
                          (relevance_count chunks a = relevance_count chunks b \<and>
                           first_met chunks a < first_met chunks b)) P"
    unfolding P_def using oS by (rule sorted_wrt_filter)
  have each: "\<And>p. p \<in> set P \<Longrightarrow> metadata (the (dm p)) ''parent_id'' = Some p \<and> the (dm p) \<in> set docs"
  proof -
    fix p assume "p \<in> set P"
    then have "dm p \<noteq> None" by (simp add: P_def)
    then obtain d where d: "dm p = Some d" by blast
    then have "find (\<lambda>doc. metadata doc ''parent_id'' = Some p) docs = Some d"
      using dmv[of p] by (simp split: if_splits)
    then have "metadata d ''parent_id'' = Some p \<and> d \<in> set docs"
      by (auto simp: find_Some_iff)
    then show "metadata (the (dm p)) ''parent_id'' = Some p \<and> the (dm p) \<in> set docs"
      using d by simp
  qed
  have g4: "map (\<lambda>d. metadata d ''parent_id'') (get_parent_documents docs chunks) = map Some P"
    unfolding res using each by simp
  have g5: "set (get_parent_documents docs chunks) \<subseteq> set docs"
    unfolding res using each by auto
  show ?thesis using g1 g2 g3 g4 g5 by blast
qed

lemma guideline_loop_foldl:
  "guideline_loop pm chunks ids acc =
     snd (foldl (guideline_step pm) (ids, acc) (referenced_parents chunks))"
proof (induction chunks arbitrary: ids acc)
  case Nil
  then show ?case by (simp add: referenced_parents_def)
next
  case (Cons c cs)
  show ?case
  proof (cases "metadata c ''parent_id''")
    case None
    then show ?thesis using Cons.IH by (simp add: referenced_parents_def)
  next
    case (Some p)
    show ?thesis
    proof (cases "py_truthy p")
      case True
      have r: "referenced_parents (c # cs) = p # referenced_parents cs"
        using Some True by (simp add: referenced_parents_def)
      show ?thesis
        unfolding r using Some True Cons.IH
        by (simp add: guideline_step_def split: option.splits)
    next
      case False
      then show ?thesis using Some Cons.IH by (simp add: referenced_parents_def)
    qed
  qed
qed

lemma guideline_inv:
  "\<exists>Q. foldl (guideline_step pm) ({}, []) R = (set Q, map (the \<circ> pm) Q) \<and> distinct Q \<and>
       set Q = {p \<in> set R. pm p \<noteq> None} \<and>
       sorted_wrt (\<lambda>a b. length (takeWhile (\<lambda>x. x \<noteq> a) R) < length (takeWhile (\<lambda>x. x \<noteq> b) R)) Q"
proof (induction R rule: rev_induct)
  case Nil
  have "foldl (guideline_step pm) ({}, []) [] = (set [], map (the \<circ> pm) [])" by simp
  then show ?case by (metis (mono_tags, lifting) distinct.simps(1) empty_Collect_eq empty_iff list.set(1) sorted_wrt.simps(1))
next
  case (snoc x R)
  then obtain Q where Q: "foldl (guideline_step pm) ({}, []) R = (set Q, map (the \<circ> pm) Q)"
    "distinct Q" "set Q = {p \<in> set R. pm p \<noteq> None}"
    "sorted_wrt (\<lambda>a b. length (takeWhile (\<lambda>x. x \<noteq> a) R) < length (takeWhile (\<lambda>x. x \<noteq> b) R)) Q"
    by blast
  have o': "sorted_wrt (\<lambda>a b. length (takeWhile (\<lambda>y. y \<noteq> a) (R @ [x]))
                              < length (takeWhile (\<lambda>y. y \<noteq> b) (R @ [x]))) Q"
  proof (rule sorted_wrt_mono_rel[OF _ Q(4)])
    fix a b assume "a \<in> set Q" "b \<in> set Q"
      and "length (takeWhile (\<lambda>x. x \<noteq> a) R) < length (takeWhile (\<lambda>x. x \<noteq> b) R)"
    then show "length (takeWhile (\<lambda>y. y \<noteq> a) (R @ [x])) < length (takeWhile (\<lambda>y. y \<noteq> b) (R @ [x]))"
      using Q(3) by (simp add: first_pos_snoc_old)
  qed
  show ?case
  proof (cases "x \<notin> set Q \<and> pm x \<noteq> None")
    case True
    then obtain d where d: "pm x = Some d" by blast
    have xR: "x \<notin> set R" using True Q(3) by auto
    have a: "foldl (guideline_step pm) ({}, []) (R @ [x]) = (set (Q @ [x]), map (the \<circ> pm) (Q @ [x]))"
      using Q(1) True d by (simp add: guideline_step_def)
    have b: "distinct (Q @ [x])" using Q(2) True by simp
    have c: "set (Q @ [x]) = {p \<in> set (R @ [x]). pm p \<noteq> None}" using Q(3) True by auto
    have "\<forall>a \<in> set Q. length (takeWhile (\<lambda>y. y \<noteq> a) (R @ [x]))
            < length (takeWhile (\<lambda>y. y \<noteq> x) (R @ [x]))"
      using Q(3) xR by (simp add: first_pos_snoc_old first_pos_new first_pos_in)
    then have e: "sorted_wrt (\<lambda>a b. length (takeWhile (\<lambda>y. y \<noteq> a) (R @ [x]))
                              < length (takeWhile (\<lambda>y. y \<noteq> b) (R @ [x]))) (Q @ [x])"
      using o' by (simp add: sorted_wrt_append)
    show ?thesis using a b c e by blast
  next
    case False
    have a: "foldl (guideline_step pm) ({}, []) (R @ [x]) = (set Q, map (the \<circ> pm) Q)"
      using Q(1) False by (auto simp: guideline_step_def split: option.splits)
    have c: "set Q = {p \<in> set (R @ [x]). pm p \<noteq> None}" using Q(3) False by auto
    show ?thesis using a Q(2) c o' by blast
  qed
qed

lemma guideline_parent_map_ok:
  "\<forall>d \<in> set docs. metadata d ''parent_id'' \<noteq> None \<Longrightarrow>
   \<exists>pm. guideline_parent_map docs m = Inr pm \<and>
        (\<forall>p. (pm p \<noteq> None \<longleftrightarrow> resolvable docs p \<or> m p \<noteq> None) \<and>
             (\<forall>d. pm p = Some d \<longrightarrow> (d \<in> set docs \<and> metadata d ''parent_id'' = Some p) \<or> m p = Some d))"
proof (induction docs arbitrary: m)
  case Nil
  then show ?case by (simp add: resolvable_def)
next
  case (Cons doc docs)
  then obtain q where q: "metadata doc ''parent_id'' = Some q" by auto
  have "\<forall>d \<in> set docs. metadata d ''parent_id'' \<noteq> None" using Cons.prems by simp
  then obtain pm where pm: "guideline_parent_map docs (m(q \<mapsto> doc)) = Inr pm"
    "\<forall>p. (pm p \<noteq> None \<longleftrightarrow> resolvable docs p \<or> (m(q \<mapsto> doc)) p \<noteq> None) \<and>
         (\<forall>d. pm p = Some d \<longrightarrow> (d \<in> set docs \<and> metadata d ''parent_id'' = Some p) \<or> (m(q \<mapsto> doc)) p = Some d)"
    using Cons.IH[of "m(q \<mapsto> doc)"] by blast
  have a: "guideline_parent_map (doc # docs) m = Inr pm" using q pm(1) by simp
  have b: "\<forall>p. (pm p \<noteq> None \<longleftrightarrow> resolvable (doc # docs) p \<or> m p \<noteq> None) \<and>
         (\<forall>d. pm p = Some d \<longrightarrow> (d \<in> set (doc # docs) \<and> metadata d ''parent_id'' = Some p) \<or> m p = Some d)"
  proof
    fix p
    show "(pm p \<noteq> None \<longleftrightarrow> resolvable (doc # docs) p \<or> m p \<noteq> None) \<and>
         (\<forall>d. pm p = Some d \<longrightarrow> (d \<in> set (doc # docs) \<and> metadata d ''parent_id'' = Some p) \<or> m p = Some d)"
      using pm(2)[rule_format, of p] q
      by (cases "p = q") (auto simp: resolvable_def)
  qed
  show ?case using a b by blast
qed

lemma guideline_resolver:
  assumes "\<forall>d \<in> set docs. metadata d ''parent_id'' \<noteq> None"
  shows "\<exists>P ds. guideline_get_parent_documents docs chunks = Inr ds \<and>
           map (\<lambda>d. metadata d ''parent_id'') ds = map Some P \<and> set ds \<subseteq> set docs \<and> distinct P \<and>
           set P = {p \<in> set (referenced_parents chunks). resolvable docs p} \<and>
           sorted_wrt (\<lambda>a b. first_met chunks a < first_met chunks b) P"
proof -
  obtain pm where pm: "guideline_parent_map docs Map.empty = Inr pm"
    "\<forall>p. (pm p \<noteq> None \<longleftrightarrow> resolvable docs p \<or> Map.empty p \<noteq> None) \<and>
         (\<forall>d. pm p = Some d \<longrightarrow> (d \<in> set docs \<and> metadata d ''parent_id'' = Some p) \<or> Map.empty p = Some d)"
    using guideline_parent_map_ok[OF assms, of Map.empty] by blast
  have pm1: "\<And>p. pm p \<noteq> None \<longleftrightarrow> resolvable docs p" using pm(2) by simp
  have pm2: "\<And>p d. pm p = Some d \<Longrightarrow> d \<in> set docs \<and> metadata d ''parent_id'' = Some p"
    using pm(2) by simp
  define R where "R = referenced_parents chunks"
  obtain Q where Q: "foldl (guideline_step pm) ({}, []) R = (set Q, map (the \<circ> pm) Q)"
    "distinct Q" "set Q = {p \<in> set R. pm p \<noteq> None}"
    "sorted_wrt (\<lambda>a b. length (takeWhile (\<lambda>x. x \<noteq> a) R) < length (takeWhile (\<lambda>x. x \<noteq> b) R)) Q"
    using guideline_inv[of pm R] by blast
  have res: "guideline_get_parent_documents docs chunks = Inr (map (the \<circ> pm) Q)"
    using pm(1) Q(1) by (simp add: guideline_get_parent_documents_def guideline_loop_foldl R_def)
  have each: "\<And>p. p \<in> set Q \<Longrightarrow> metadata (the (pm p)) ''parent_id'' = Some p \<and> the (pm p) \<in> set docs"
  proof -
    fix p assume "p \<in> set Q"
    then have "pm p \<noteq> None" using Q(3) by simp
    then obtain d where d: "pm p = Some d" by blast
    then show "metadata (the (pm p)) ''parent_id'' = Some p \<and> the (pm p) \<in> set docs"
      using pm2[OF d] by simp
  qed
  have g1: "map (\<lambda>d. metadata d ''parent_id'') (map (the \<circ> pm) Q) = map Some Q"
    using each by simp
  have g2: "set (map (the \<circ> pm) Q) \<subseteq> set docs" using each by auto
  have g3: "set Q = {p \<in> set (referenced_parents chunks). resolvable docs p}"
    using Q(3) pm1 by (simp add: R_def)
  have g4: "sorted_wrt (\<lambda>a b. first_met chunks a < first_met chunks b) Q"
    using Q(4) unfolding first_met_def R_def .
  show ?thesis using res g1 g2 g3 g4 Q(2) by blast
qed

text \<open>
  C1 (as amended). Both resolvers return each referenced parent that the document set
  resolves exactly once, and only documents of the set. The flat resolver orders them by
  descending relevance count, parents of equal count in the order in which they are first
  met in the fragment list. The hierarchical resolver orders them by first meeting alone:
  it counts nothing (and it needs every document to carry a parent identifier).
\<close>

theorem parent_resolvers_order:
  "(\<exists>P. map (\<lambda>d. metadata d ''parent_id'') (get_parent_documents docs chunks) = map Some P \<and>
        set (get_parent_documents docs chunks) \<subseteq> set docs \<and> distinct P \<and>
        set P = {p \<in> set (referenced_parents chunks). resolvable docs p} \<and>
        sorted_wrt (\<lambda>a b. relevance_count chunks b < relevance_count chunks a \<or>
                           (relevance_count chunks a = relevance_count chunks b \<and>
                            first_met chunks a < first_met chunks b)) P) \<and>
   ((\<forall>d \<in> set docs. metadata d ''parent_id'' \<noteq> None) \<longrightarrow>
      (\<exists>P ds. guideline_get_parent_documents docs chunks = Inr ds \<and>
           map (\<lambda>d. metadata d ''parent_id'') ds = map Some P \<and> set ds \<subseteq> set docs \<and> distinct P \<and>
           set P = {p \<in> set (referenced_parents chunks). resolvable docs p} \<and>
           sorted_wrt (\<lambda>a b. first_met chunks a < first_met chunks b) P))"
  using flat_resolver[of docs chunks] guideline_resolver[of docs chunks] by blast

lemma parent_doc_id: "metadata (parent_doc n) ''parent_id'' = Some (MStr n)"
  by (simp add: parent_doc_def)

lemma fragment_of_id: "metadata (fragment_of n) ''parent_id'' = Some (MStr n)"
  by (simp add: fragment_of_def)

lemma referenced_BAA: "referenced_parents fragments_BAA = [MStr [66], MStr [65], MStr [65]]"
  by (simp add: referenced_parents_def fragments_BAA_def fragment_of_id)

lemma referenced_AABAC:
  "referenced_parents fragments_AABAC = [MStr [65], MStr [65], MStr [66], MStr [65], MStr [67]]"
  by (simp add: referenced_parents_def fragments_AABAC_def fragment_of_id)

text \<open>
  C1 as stated fails for the hierarchical resolver: for fragments of the parents B, A, A
  it returns B before A, although A has relevance count 2 and B has 1.
\<close>

theorem guideline_resolver_counterexample:
  "guideline_get_parent_documents docs_ABC fragments_BAA = Inr [parent_doc [66], parent_doc [65]] \<and>
   relevance_count fragments_BAA (MStr [65]) = 2 \<and>
   relevance_count fragments_BAA (MStr [66]) = 1"
  by (simp add: guideline_get_parent_documents_def docs_ABC_def fragments_BAA_def
      parent_doc_id fragment_of_id relevance_count_def referenced_BAA[unfolded fragments_BAA_def])

lemma flat_AABAC:
  "get_parent_documents docs_ABC fragments_AABAC = [parent_doc [65], parent_doc [66], parent_doc [67]]"
  by (simp add: get_parent_documents_def docs_ABC_def fragments_AABAC_def parent_doc_id
      fragment_of_id od_get_def py_sorted_reverse_def map_filter_def)

lemma guideline_AABAC:
  "guideline_get_parent_documents docs_ABC fragments_AABAC
     = Inr [parent_doc [65], parent_doc [66], parent_doc [67]]"
  by (simp add: guideline_get_parent_documents_def docs_ABC_def fragments_AABAC_def
      parent_doc_id fragment_of_id)

lemma flat_BAA:
  "get_parent_documents docs_ABC fragments_BAA = [parent_doc [65], parent_doc [66]]"
  by (simp add: get_parent_documents_def docs_ABC_def fragments_BAA_def parent_doc_id
      fragment_of_id od_get_def py_sorted_reverse_def map_filter_def)

text \<open>
  Fragments of the parents A, A, B, A, C resolve to A, B, C in both resolvers, with
  relevance counts 3, 1, 1; the flat resolver puts A before B for the fragments B, A, A.
\<close>

theorem parent_resolvers_order_witness:
  "get_parent_documents docs_ABC fragments_AABAC = [parent_doc [65], parent_doc [66], parent_doc [67]] \<and>
   guideline_get_parent_documents docs_ABC fragments_AABAC
     = Inr [parent_doc [65], parent_doc [66], parent_doc [67]] \<and>
   relevance_count fragments_AABAC (MStr [65]) = 3 \<and>
   relevance_count fragments_AABAC (MStr [66]) = 1 \<and>
   relevance_count fragments_AABAC (MStr [67]) = 1 \<and>
   get_parent_documents docs_ABC fragments_BAA = [parent_doc [65], parent_doc [66]] \<and>
   (\<exists>P ds. guideline_get_parent_documents docs_ABC fragments_AABAC = Inr ds \<and>
           map (\<lambda>d. metadata d ''parent_id'') ds = map Some P \<and> set ds \<subseteq> set docs_ABC \<and>
           distinct P \<and>
           set P = {p \<in> set (referenced_parents fragments_AABAC). resolvable docs_ABC p} \<and>
           sorted_wrt (\<lambda>a b. first_met fragments_AABAC a < first_met fragments_AABAC b) P)"
proof -
  have h: "\<forall>d \<in> set docs_ABC. metadata d ''parent_id'' \<noteq> None"
    by (simp add: docs_ABC_def parent_doc_id)
  have c: "relevance_count fragments_AABAC (MStr [65]) = 3"
    "relevance_count fragments_AABAC (MStr [66]) = 1"
    "relevance_count fragments_AABAC (MStr [67]) = 1"
    by (simp_all add: relevance_count_def referenced_AABAC)
  show ?thesis
    using parent_resolvers_order[of docs_ABC fragments_AABAC] h c flat_AABAC guideline_AABAC flat_BAA
    by blast
qed

subsection \<open>Structural chunker\<close>

lemma stamp_chunks_texts:
  "stamp_chunks uuid doc pid i md s = (cs, s') \<Longrightarrow>
   map page_content cs = map page_content md \<and> log s' = log s"
proof (induction md arbitrary: i s cs s')
  case Nil
  then show ?case by simp
next
  case (Cons c md)
  let ?s1 = "s\<lparr>self_parent_child_map := (self_parent_child_map s)(uuid (uuid_drawn s) \<mapsto> pid),
                 uuid_drawn := Suc (uuid_drawn s)\<rparr>"
  obtain rest s2 where r: "stamp_chunks uuid doc pid (i + 1) md ?s1 = (rest, s2)"
    by (cases "stamp_chunks uuid doc pid (i + 1) md ?s1")
  have ih: "map page_content rest = map page_content md \<and> log s2 = log ?s1"
    using Cons.IH[OF r] .
  have "cs = c\<lparr>metadata := (metadata c ++ metadata doc)
                       (''chunk_id'' \<mapsto> MStr (uuid (uuid_drawn s)), ''parent_id'' \<mapsto> pid,
                        ''doc_type'' \<mapsto> MStr (asc ''child''), ''chunk_index'' \<mapsto> MInt i)\<rparr> # rest"
    and "s' = s2"
    using Cons.prems r by (simp_all add: Let_def)
  then show ?case using ih by simp
qed

lemma split_document_texts:
  "split_document split_text uuid idx doc s = (cs, s') \<Longrightarrow>
   map (\<lambda>c. page_content (fst c)) cs = fragment_texts split_text doc \<and>
   set (log s) \<subseteq> set (log s') \<and>
   (\<not> has_headers (page_content doc) \<longrightarrow> NoHeadersWarning \<in> set (log s'))"
proof (cases "split_text (page_content doc)")
  case (Inl e)
  assume "split_document split_text uuid idx doc s = (cs, s')"
  then show ?thesis using Inl by (auto simp: split_document_def fragment_texts_def Let_def)
next
  case (Inr md)
  assume a: "split_document split_text uuid idx doc s = (cs, s')"
  show ?thesis
  proof (cases "metadata doc ''parent_id''")
    case None
    then show ?thesis using a Inr by (auto simp: split_document_def fragment_texts_def Let_def)
  next
    case (Some pid)
    define s1 where "s1 = (if has_headers (page_content doc) then s
                else s\<lparr>log := log s @ [NoHeadersWarning]\<rparr>)"
    define s2 where "s2 = (if length md \<le> 1 then s1\<lparr>log := log s1 @ [NotSplitWarning]\<rparr> else s1)"
    obtain st s3 where r: "stamp_chunks uuid doc pid 0 md s2 = (st, s3)"
      by (cases "stamp_chunks uuid doc pid 0 md s2")
    have e: "cs = map (\<lambda>c. (c, None)) st" "s' = s3"
      using a Inr Some r[unfolded s2_def s1_def] by (simp_all add: split_document_def Let_def)
    have t: "map page_content st = map page_content md" "log s3 = log s2"
      using stamp_chunks_texts[OF r] by blast+
    have l: "set (log s) \<subseteq> set (log s2)"
      "\<not> has_headers (page_content doc) \<longrightarrow> NoHeadersWarning \<in> set (log s2)"
      by (auto simp: s1_def s2_def)
    have "map (\<lambda>c. page_content (fst c)) cs = map page_content md"
      using e(1) t(1) by (simp add: comp_def)
    then show ?thesis using l e(2) t(2) Inr Some by (simp add: fragment_texts_def)
  qed
qed

lemma markdown_header_split_texts:
  "markdown_header_split split_text uuid idx docs s = (cs, s') \<Longrightarrow>
   map (\<lambda>c. page_content (fst c)) cs = concat (map (fragment_texts split_text) docs) \<and>
   set (log s) \<subseteq> set (log s') \<and>
   ((\<exists>d \<in> set docs. \<not> has_headers (page_content d)) \<longrightarrow> NoHeadersWarning \<in> set (log s'))"
proof (induction docs arbitrary: idx s cs s')
  case Nil
  then show ?case by simp
next
  case (Cons doc docs)
  obtain c1 s1 where a: "split_document split_text uuid idx doc s = (c1, s1)"
    by (cases "split_document split_text uuid idx doc s")
  obtain rest s2 where b: "markdown_header_split split_text uuid (Suc idx) docs s1 = (rest, s2)"
    by (cases "markdown_header_split split_text uuid (Suc idx) docs s1")
  have r: "cs = c1 @ rest" "s' = s2"
    using a b Cons.prems by simp_all
  have A: "map (\<lambda>c. page_content (fst c)) c1 = fragment_texts split_text doc"
    "set (log s) \<subseteq> set (log s1)"
    "\<not> has_headers (page_content doc) \<longrightarrow> NoHeadersWarning \<in> set (log s1)"
    using split_document_texts[OF a] by blast+
  have B: "map (\<lambda>c. page_content (fst c)) rest = concat (map (fragment_texts split_text) docs)"
    "set (log s1) \<subseteq> set (log s2)"
    "(\<exists>d \<in> set docs. \<not> has_headers (page_content d)) \<longrightarrow> NoHeadersWarning \<in> set (log s2)"
    using Cons.IH[OF b] by blast+
  show ?case unfolding r using A B by auto
qed

lemma add_base_metadata_texts:
  "add_base_metadata uuid i chunks s = (cs, s') \<Longrightarrow>
   map page_content cs = map (\<lambda>c. page_content (fst c)) chunks \<and> log s' = log s"
proof (induction chunks arbitrary: i s cs s')
  case Nil
  then show ?case by simp
next
  case (Cons c chunks)
  obtain ch al where c: "c = (ch, al)" by (cases c)
  define m1 where "m1 = (if metadata ch ''chunk_id'' = None
             then (metadata ch)(''chunk_id'' \<mapsto> MStr (uuid (uuid_drawn s))) else metadata ch)"
  define s1 where "s1 = (if metadata ch ''chunk_id'' = None
             then s\<lparr>uuid_drawn := Suc (uuid_drawn s)\<rparr> else s)"
  define ch' where "ch' = ch\<lparr>metadata :=
                     m1(''batch_index'' \<mapsto> MInt i,
                        ''chunk_size'' \<mapsto> MInt (int (length (page_content ch))))\<rparr>"
  define s2 where "s2 = (case al of None \<Rightarrow> s1
                | Some idx \<Rightarrow> s1\<lparr>self_documents := (self_documents s1)[idx := ch']\<rparr>)"
  obtain rest s3 where r: "add_base_metadata uuid (i + 1) chunks s2 = (rest, s3)"
    by (cases "add_base_metadata uuid (i + 1) chunks s2")
  have e: "cs = ch' # rest" "s' = s3"
    using Cons.prems r[unfolded s2_def ch'_def m1_def s1_def] unfolding c
    by (auto simp: Let_def ch'_def m1_def split: if_splits)
  have l: "log s2 = log s" by (simp add: s2_def s1_def split: option.splits)
  have "page_content ch' = page_content ch" by (simp add: ch'_def)
  then show ?case using Cons.IH[OF r] e l c by simp
qed







text \<open>
  Whatever the splitter does, chunking a module that holds documents raises nothing, and
  the texts of its fragments are, document by document, the texts of the splitter's
  chunks, or the text of the document where its \<open>try\<close> block raises: the chunker alters no
  text and adds no fragment of its own.
\<close>

lemma chunk_documents_texts:
  assumes "self_documents s \<noteq> []"
  shows "\<exists>cs s'. chunk_documents split_text uuid s = Inr (cs, s') \<and> self_chunks s' = cs \<and>
           map page_content cs = concat (map (fragment_texts split_text) (self_documents s))"
proof -
  obtain c1 s1 where a: "markdown_header_split split_text uuid 0 (self_documents s) s = (c1, s1)"
    by (cases "markdown_header_split split_text uuid 0 (self_documents s) s")
  obtain c2 s2 where b: "add_base_metadata uuid 0 c1 s1 = (c2, s2)"
    by (cases "add_base_metadata uuid 0 c1 s1")
  have r: "chunk_documents split_text uuid s = Inr (c2, s2\<lparr>self_chunks := c2\<rparr>)"
    using assms a b by (simp add: chunk_documents_def)
  have A: "map (\<lambda>c. page_content (fst c)) c1 =
             concat (map (fragment_texts split_text) (self_documents s))"
    using markdown_header_split_texts[OF a] by blast
  have B: "map page_content c2 = map (\<lambda>c. page_content (fst c)) c1"
    using add_base_metadata_texts[OF b] by blast
  show ?thesis using r A B by simp
qed


lemma parent_doc_no_chunk_id: "metadata (parent_doc n) ''chunk_id'' = None"
  by (simp add: parent_doc_def)

lemma parent_doc_text: "page_content (parent_doc n) = n"
  by (simp add: parent_doc_def)

lemma example_uuid_0: "example_uuid 0 = asc ''id-0''"
  by (simp add: example_uuid_def digits_of.simps asc_def)

lemma no_headers_A: "\<not> has_headers [65]"
  by (simp add: has_headers_def py_strip_def py_isspace_def NL_def)






text \<open>
  C8 fails on the caught-failure path. The fallback fragment is given a child identifier
  by \<open>chunk_documents\<close> and carries its parent identifier, but nothing records it in the
  ParentChildIndex: the map does not contain the fragment's child identifier.
\<close>

theorem fallback_fragment_not_indexed:
  "(case chunk_documents failing_split example_uuid (module_with [parent_doc [65]]) of
      Inl e \<Rightarrow> False
    | Inr (cs, s') \<Rightarrow>
        map (\<lambda>c. metadata c ''chunk_id'') cs = [Some (MStr (asc ''id-0''))] \<and>
        map (\<lambda>c. metadata c ''parent_id'') cs = [Some (MStr [65])] \<and>
        self_parent_child_map s' (asc ''id-0'') = None \<and>
        log s' = [NoHeadersWarning, SplitFailedWarning])"
  by (simp add: chunk_documents_def module_with_def split_document_def failing_split_def
      parent_doc_text parent_doc_id parent_doc_no_chunk_id no_headers_A example_uuid_0 Let_def)

subsection \<open>The answer operation\<close>

text \<open>
  C4. The answer operation fails with the error "build the knowledge base first" whenever
  one of the two retrieval modules or the generation module is absent. When they are
  present, routing and rewriting have returned and retrieval yields no fragment, it
  returns the fixed not-found message as a normal result, in both delivery modes.
\<close>

theorem ask_question_no_knowledge_base_and_empty_retrieval:
  "(case_report_retrieval_module s = None \<or> generation_module s = None \<or>
    guideline_retrieval_module s = None \<longrightarrow>
      ask_question s question stream = Inl (ValueError no_knowledge_base_message)) \<and>
   (case_report_retrieval_module s = Some rm \<and> generation_module s = Some gm \<and>
    guideline_retrieval_module s = Some grm \<and>
    route_step gm question = Inr route_type \<and>
    rewrite_step gm route_type question = Inr rewritten_query \<and>
    retrieve_step s rm rewritten_query question = Inr [] \<longrightarrow>
      ask_question s question stream = Inr (Text not_found_message))"
proof (intro conjI impI)
  assume "case_report_retrieval_module s = None \<or> generation_module s = None \<or>
    guideline_retrieval_module s = None"
  then show "ask_question s question stream = Inl (ValueError no_knowledge_base_message)"
    by (auto simp: ask_question_def split: option.splits)
next
  assume "case_report_retrieval_module s = Some rm \<and> generation_module s = Some gm \<and>
    guideline_retrieval_module s = Some grm \<and>
    route_step gm question = Inr route_type \<and>
    rewrite_step gm route_type question = Inr rewritten_query \<and>
    retrieve_step s rm rewritten_query question = Inr []"
  then show "ask_question s question stream = Inr (Text not_found_message)"
    by (simp add: ask_question_def)
qed

lemma route_general: "route_step example_generation (asc ''MRI'') = Inr (asc ''general'')"
  by (simp add: route_step_def example_generation_def query_router_def route_labels_def
      py_lower_def py_strip_def py_isspace_def ascii_lower_def asc_def upt_conv_Cons)

lemma rewrite_general: "rewrite_step example_generation (asc ''general'') (asc ''MRI'') = Inr (asc ''MRI'')"
  by (simp add: rewrite_step_def example_generation_def py_strip_def py_isspace_def asc_def)

lemma retrieve_nothing: "retrieve_step built_system empty_retrieval q (asc ''MRI'') = Inr []"
  by (simp add: retrieve_step_def empty_retrieval_def Let_def)

text \<open>
  A system that has not built its knowledge base fails; a built system whose retrieval
  finds nothing answers with the not-found message, streaming or not.
\<close>

theorem ask_question_witness:
  "ask_question fresh_system (asc ''MRI'') False = Inl (ValueError no_knowledge_base_message) \<and>
   ask_question built_system (asc ''MRI'') False = Inr (Text not_found_message) \<and>
   ask_question built_system (asc ''MRI'') True = Inr (Text not_found_message)"
proof -
  have a: "case_report_retrieval_module fresh_system = None" by (simp add: fresh_system_def)
  have b: "case_report_retrieval_module built_system = Some empty_retrieval"
    "generation_module built_system = Some example_generation"
    "guideline_retrieval_module built_system = Some empty_retrieval"
    by (simp_all add: built_system_def)
  show ?thesis
    using ask_question_no_knowledge_base_and_empty_retrieval[where s=fresh_system and rm=empty_retrieval
        and gm=example_generation and grm=empty_retrieval and question="asc ''MRI''"
        and route_type="asc ''general''" and rewritten_query="asc ''MRI''" and stream=False]
      ask_question_no_knowledge_base_and_empty_retrieval[where s=built_system and rm=empty_retrieval
        and gm=example_generation and grm=empty_retrieval and question="asc ''MRI''"
        and route_type="asc ''general''" and rewritten_query="asc ''MRI''" and stream=False]
      ask_question_no_knowledge_base_and_empty_retrieval[where s=built_system and rm=empty_retrieval
        and gm=example_generation and grm=empty_retrieval and question="asc ''MRI''"
        and route_type="asc ''general''" and rewritten_query="asc ''MRI''" and stream=True]
      a b route_general rewrite_general retrieve_nothing[of "asc ''MRI''"]
    by simp
qed

subsection \<open>Content normalizer\<close>

lemma collapse_step_keep:
  "\<not> (a = NL \<and> b = NL \<and> c = NL) \<Longrightarrow>
   collapse_newlines (a # b # c # cs) = a # collapse_newlines (b # c # cs)"
proof -
  assume n: "\<not> (a = NL \<and> b = NL \<and> c = NL)"
  show ?thesis unfolding collapse_newlines.simps(1) using n by (rule if_not_P)
qed

lemma collapse_step_drop:
  "a = NL \<and> b = NL \<and> c = NL \<Longrightarrow>
   collapse_newlines (a # b # c # cs) = collapse_newlines (b # c # cs)"
proof -
  assume n: "a = NL \<and> b = NL \<and> c = NL"
  show ?thesis unfolding collapse_newlines.simps(1) using n by (rule if_P)
qed

lemma collapse_take2: "take 2 (collapse_newlines xs) = take 2 xs"
proof (induction xs rule: collapse_newlines.induct)
  case (1 a b c cs)
  show ?case
  proof (cases "a = NL \<and> b = NL \<and> c = NL")
    case True
    have "take 2 (collapse_newlines (b # c # cs)) = take 2 (b # c # cs)" using 1(1)[OF True] .
    then show ?thesis unfolding collapse_step_drop[OF True] using True by simp
  next
    case False
    have "take 1 (collapse_newlines (b # c # cs)) = take 1 (take 2 (collapse_newlines (b # c # cs)))"
      by simp
    also have "\<dots> = [b]" using 1(2)[OF False] by simp
    finally have "take 1 (collapse_newlines (b # c # cs)) = [b]" .
    then show ?thesis unfolding collapse_step_keep[OF False] by (simp add: numeral_2_eq_2)
  qed
qed simp_all

lemma has_triple_Cons:
  "has_triple_newline (a # ys) \<longleftrightarrow> (a = NL \<and> take 2 ys = [NL, NL]) \<or> has_triple_newline ys"
proof
  assume "has_triple_newline (a # ys)"
  then obtain pre post where e: "a # ys = pre @ [NL, NL, NL] @ post"
    unfolding has_triple_newline_def by blast
  show "(a = NL \<and> take 2 ys = [NL, NL]) \<or> has_triple_newline ys"
  proof (cases pre)
    case Nil
    then show ?thesis using e by simp
  next
    case (Cons p pre')
    then have "ys = pre' @ [NL, NL, NL] @ post" using e by simp
    then show ?thesis unfolding has_triple_newline_def by blast
  qed
next
  assume "(a = NL \<and> take 2 ys = [NL, NL]) \<or> has_triple_newline ys"
  then show "has_triple_newline (a # ys)"
  proof
    assume h: "a = NL \<and> take 2 ys = [NL, NL]"
    then have "ys = [NL, NL] @ drop 2 ys" by (metis append_take_drop_id)
    then have "a # ys = [] @ [NL, NL, NL] @ drop 2 ys" using h by simp
    then show ?thesis unfolding has_triple_newline_def by blast
  next
    assume "has_triple_newline ys"
    then obtain pre post where "ys = pre @ [NL, NL, NL] @ post"
      unfolding has_triple_newline_def by blast
    then have "a # ys = (a # pre) @ [NL, NL, NL] @ post" by simp
    then show ?thesis unfolding has_triple_newline_def by blast
  qed
qed

lemma has_triple_short: "length xs < 3 \<Longrightarrow> \<not> has_triple_newline xs"
  unfolding has_triple_newline_def by auto

lemma collapse_no_triple: "\<not> has_triple_newline (collapse_newlines xs)"
proof (induction xs rule: collapse_newlines.induct)
  case (1 a b c cs)
  show ?case
  proof (cases "a = NL \<and> b = NL \<and> c = NL")
    case True
    show ?thesis unfolding collapse_step_drop[OF True] using 1(1)[OF True] .
  next
    case False
    have ih: "\<not> has_triple_newline (collapse_newlines (b # c # cs))" using 1(2)[OF False] .
    have t: "take 2 (collapse_newlines (b # c # cs)) = [b, c]"
      using collapse_take2[of "b # c # cs"] by (simp add: numeral_2_eq_2)
    have "\<not> (a = NL \<and> take 2 (collapse_newlines (b # c # cs)) = [NL, NL])"
      using False t by auto
    then have "\<not> has_triple_newline (a # collapse_newlines (b # c # cs))"
      using ih by (simp add: has_triple_Cons)
    then show ?thesis unfolding collapse_step_keep[OF False] .
  qed
qed (simp_all add: has_triple_short)

lemma collapse_id: "\<not> has_triple_newline xs \<Longrightarrow> collapse_newlines xs = xs"
proof (induction xs rule: collapse_newlines.induct)
  case (1 a b c cs)
  have n: "\<not> (a = NL \<and> b = NL \<and> c = NL)" and r: "\<not> has_triple_newline (b # c # cs)"
    using 1(3) by (auto simp: has_triple_Cons numeral_2_eq_2)
  have "collapse_newlines (b # c # cs) = b # c # cs" using 1(2)[OF n r] .
  then show ?case unfolding collapse_step_keep[OF n] by simp
qed simp_all

lemma has_triple_rev: "has_triple_newline (rev xs) \<Longrightarrow> has_triple_newline xs"
proof -
  assume "has_triple_newline (rev xs)"
  then obtain pre post where "rev xs = pre @ [NL, NL, NL] @ post"
    unfolding has_triple_newline_def by blast
  then have "rev (rev xs) = rev (pre @ [NL, NL, NL] @ post)" by simp
  then have "xs = rev post @ [NL, NL, NL] @ rev pre" by simp
  then show ?thesis unfolding has_triple_newline_def by blast
qed

lemma has_triple_dropWhile: "has_triple_newline (dropWhile P xs) \<Longrightarrow> has_triple_newline xs"
proof -
  assume "has_triple_newline (dropWhile P xs)"
  then obtain pre post where "dropWhile P xs = pre @ [NL, NL, NL] @ post"
    unfolding has_triple_newline_def by blast
  then have "takeWhile P xs @ dropWhile P xs = (takeWhile P xs @ pre) @ [NL, NL, NL] @ post"
    by simp
  then have "xs = (takeWhile P xs @ pre) @ [NL, NL, NL] @ post" by simp
  then show ?thesis unfolding has_triple_newline_def by blast
qed

lemma strip_no_triple: "\<not> has_triple_newline xs \<Longrightarrow> \<not> has_triple_newline (py_strip xs)"
  unfolding py_strip_def
  using has_triple_rev has_triple_dropWhile by (metis rev_rev_ident)

lemma py_strip_idem: "py_strip (py_strip xs) = py_strip xs"
proof -
  define ys where "ys = dropWhile py_isspace xs"
  define zs where "zs = rev (dropWhile py_isspace (rev ys))"
  have z: "py_strip xs = zs" by (simp add: py_strip_def ys_def zs_def)
  have "ys = rev (rev ys)" by simp
  also have "\<dots> = rev (takeWhile py_isspace (rev ys) @ dropWhile py_isspace (rev ys))"
    by (simp only: takeWhile_dropWhile_id)
  also have "\<dots> = rev (dropWhile py_isspace (rev ys)) @ rev (takeWhile py_isspace (rev ys))"
    by (rule rev_append)
  finally have pre: "ys = zs @ rev (takeWhile py_isspace (rev ys))" unfolding zs_def .
  have d1: "dropWhile py_isspace zs = zs"
  proof (cases zs)
    case Nil
    then show ?thesis by simp
  next
    case (Cons z zs')
    then have "hd ys = z" "ys \<noteq> []" using pre by (metis append_Cons list.sel(1), metis Nil_is_append_conv list.distinct(1) pre Cons)
    then have "\<not> py_isspace z" unfolding ys_def using hd_dropWhile by metis
    then show ?thesis using Cons by simp
  qed
  have d2: "dropWhile py_isspace (rev zs) = rev zs" by (simp add: zs_def)
  show ?thesis unfolding z by (simp add: py_strip_def d1 d2)
qed

lemma reclean:
  assumes "u = py_strip (collapse_newlines v)"
  shows "py_strip (collapse_newlines u) = u"
proof -
  have "\<not> has_triple_newline u" using assms collapse_no_triple strip_no_triple by simp
  then have "collapse_newlines u = u" by (rule collapse_id)
  then show ?thesis using assms py_strip_idem by simp
qed

text \<open>
  C6 (as amended). Both normalizers map the empty text to the empty text, and cleaning a
  cleaned text again changes nothing whenever the markup steps (reference truncation, tag
  removal, image references) find nothing to change in it: newline collapsing and
  trimming are idempotent on what they produce.
\<close>

theorem normalizers_empty_and_stable:
  "clean_academic_markdown [] = [] \<and> clean_guideline_markdown [] = [] \<and>
   (academic_markup_steps (clean_academic_markdown t) = clean_academic_markdown t \<longrightarrow>
      clean_academic_markdown (clean_academic_markdown t) = clean_academic_markdown t) \<and>
   (guideline_markup_steps (clean_guideline_markdown t) = clean_guideline_markdown t \<longrightarrow>
      clean_guideline_markdown (clean_guideline_markdown t) = clean_guideline_markdown t)"
proof (intro conjI impI)
  show "clean_academic_markdown [] = []" by (simp add: clean_academic_markdown_def)
  show "clean_guideline_markdown [] = []" by (simp add: clean_guideline_markdown_def)
next
  assume h: "academic_markup_steps (clean_academic_markdown t) = clean_academic_markdown t"
  show "clean_academic_markdown (clean_academic_markdown t) = clean_academic_markdown t"
  proof (cases "clean_academic_markdown t = []")
    case True
    then show ?thesis by (simp add: clean_academic_markdown_def)
  next
    case False
    then have "t \<noteq> []" by (auto simp: clean_academic_markdown_def)
    then have u: "clean_academic_markdown t = py_strip (collapse_newlines (academic_markup_steps t))"
      by (simp add: clean_academic_markdown_def)
    have "clean_academic_markdown (clean_academic_markdown t)
            = py_strip (collapse_newlines (clean_academic_markdown t))"
      using False h by (simp add: clean_academic_markdown_def)
    then show ?thesis using reclean[OF u] by simp
  qed
next
  assume h: "guideline_markup_steps (clean_guideline_markdown t) = clean_guideline_markdown t"
  show "clean_guideline_markdown (clean_guideline_markdown t) = clean_guideline_markdown t"
  proof (cases "clean_guideline_markdown t = []")
    case True
    then show ?thesis by (simp add: clean_guideline_markdown_def)
  next
    case False
    then have "t \<noteq> []" by (auto simp: clean_guideline_markdown_def)
    then have u: "clean_guideline_markdown t = py_strip (collapse_newlines (guideline_markup_steps t))"
      by (simp add: clean_guideline_markdown_def)
    have "clean_guideline_markdown (clean_guideline_markdown t)
            = py_strip (collapse_newlines (clean_guideline_markdown t))"
      using False h by (simp add: clean_guideline_markdown_def)
    then show ?thesis using reclean[OF u] by simp
  qed
qed

lemmas eval_defs = asc_def NL_def py_strip_def py_isspace_def ref_heading_at_def ci_match_def
  academic_ref_names_def guideline_ref_names_def match_image_def br_tag_rest_def
  academic_markup_steps_def guideline_markup_steps_def clean_academic_markdown_def
  clean_guideline_markdown_def

lemma clean_academic_indented:
  "clean_academic_markdown indented_heading = asc ''# References''"
  by (simp add: indented_heading_def eval_defs)

lemma clean_academic_heading: "clean_academic_markdown (asc ''# References'') = []"
  by (simp add: eval_defs)

lemma clean_guideline_indented:
  "clean_guideline_markdown indented_heading = asc ''# References''"
  by (simp add: indented_heading_def eval_defs)

lemma clean_guideline_heading: "clean_guideline_markdown (asc ''# References'') = []"
  by (simp add: eval_defs)

text \<open>
  C6 as stated fails for both normalizers: the text \<open>" # References"\<close> is cleaned to
  \<open>"# References"\<close> (the heading is not at the start of a line before trimming), and
  cleaning that again truncates it to the empty text.
\<close>

theorem normalizers_not_idempotent:
  "clean_academic_markdown indented_heading = asc ''# References'' \<and>
   clean_academic_markdown (clean_academic_markdown indented_heading) = [] \<and>
   clean_academic_markdown (clean_academic_markdown indented_heading)
     \<noteq> clean_academic_markdown indented_heading \<and>
   clean_guideline_markdown indented_heading = asc ''# References'' \<and>
   clean_guideline_markdown (clean_guideline_markdown indented_heading) = [] \<and>
   clean_guideline_markdown (clean_guideline_markdown indented_heading)
     \<noteq> clean_guideline_markdown indented_heading"
  unfolding clean_academic_indented clean_guideline_indented clean_academic_heading
    clean_guideline_heading
  by (simp add: asc_def)

lemma clean_academic_spaced: "clean_academic_markdown spaced_text = [97, 10, 10, 98]"
  by (simp add: spaced_text_def eval_defs)

lemma clean_guideline_spaced: "clean_guideline_markdown spaced_text = [97, 10, 10, 98]"
  by (simp add: spaced_text_def eval_defs)

lemma academic_steps_clean: "academic_markup_steps [97, 10, 10, 98] = [97, 10, 10, 98]"
  by (simp add: eval_defs)

lemma guideline_steps_clean: "guideline_markup_steps [97, 10, 10, 98] = [97, 10, 10, 98]"
  by (simp add: eval_defs)

text \<open>
  A text with four newlines in a row and a trailing space is cleaned to two newlines and
  no trailing space, and stays so when cleaned again.
\<close>

theorem normalizers_empty_and_stable_witness:
  "academic_markup_steps (clean_academic_markdown spaced_text) = clean_academic_markdown spaced_text \<and>
   guideline_markup_steps (clean_guideline_markdown spaced_text) = clean_guideline_markdown spaced_text \<and>
   clean_academic_markdown spaced_text = [97, 10, 10, 98] \<and>
   clean_guideline_markdown spaced_text = [97, 10, 10, 98] \<and>
   clean_academic_markdown (clean_academic_markdown spaced_text) = clean_academic_markdown spaced_text \<and>
   clean_guideline_markdown (clean_guideline_markdown spaced_text) = clean_guideline_markdown spaced_text"
  using normalizers_empty_and_stable[of spaced_text]
    clean_academic_spaced clean_guideline_spaced academic_steps_clean guideline_steps_clean
  by simp

subsection \<open>Path metadata resolver\<close>

lemma py_join_Cons: "ys \<noteq> [] \<Longrightarrow> py_join sep (x # ys) = x @ sep @ py_join sep ys"
  by (cases ys) simp_all

lemma camel_matches_nonempty:
  "NL \<notin> set rest \<Longrightarrow> cur \<noteq> [] \<Longrightarrow> camel_matches cur rest \<noteq> []"
  by (induction rest arbitrary: cur) auto

lemma camel_boundary_plain:
  "c \<noteq> NL \<Longrightarrow> camel_boundary l c cs \<longleftrightarrow>
     (is_ascii_lower l \<and> is_ascii_upper c) \<or>
     (is_ascii_upper l \<and> is_ascii_upper c \<and> cs \<noteq> [] \<and> is_ascii_lower (hd cs))"
  by (simp add: camel_boundary_def)

lemma camel_matches_spaced:
  "NL \<notin> set rest \<Longrightarrow> cur \<noteq> [] \<Longrightarrow>
   py_join [32] (camel_matches cur rest) = butlast cur @ spaced_at_boundaries (last cur # rest)"
proof (induction rest arbitrary: cur)
  case Nil
  then show ?case by simp
next
  case (Cons c cs)
  have c: "c \<noteq> NL" and cs: "NL \<notin> set cs" using Cons.prems(1) by auto
  show ?case
  proof (cases "camel_boundary (last cur) c cs")
    case True
    have m: "camel_matches cur (c # cs) = cur # camel_matches [c] cs"
      using True Cons.prems(2) c by simp
    have "py_join [32] (camel_matches [c] cs) = butlast [c] @ spaced_at_boundaries (last [c] # cs)"
      using Cons.IH[OF cs, of "[c]"] by simp
    then have j: "py_join [32] (camel_matches [c] cs) = spaced_at_boundaries (c # cs)" by simp
    have "py_join [32] (camel_matches cur (c # cs)) = cur @ [32] @ spaced_at_boundaries (c # cs)"
      unfolding m using py_join_Cons[OF camel_matches_nonempty[OF cs], of "[c]" "[32]" cur] j
      by simp
    moreover have "spaced_at_boundaries (last cur # c # cs) = last cur # 32 # spaced_at_boundaries (c # cs)"
      using True c by (simp add: camel_boundary_plain)
    moreover have "cur = butlast cur @ [last cur]" using Cons.prems(2) by simp
    ultimately show ?thesis by (metis append_Cons append_Nil append_assoc)
  next
    case False
    have m: "camel_matches cur (c # cs) = camel_matches (cur @ [c]) cs"
      using False c by simp
    have "py_join [32] (camel_matches (cur @ [c]) cs)
            = butlast (cur @ [c]) @ spaced_at_boundaries (last (cur @ [c]) # cs)"
      using Cons.IH[OF cs, of "cur @ [c]"] by simp
    then have j: "py_join [32] (camel_matches cur (c # cs)) = cur @ spaced_at_boundaries (c # cs)"
      unfolding m by simp
    have "spaced_at_boundaries (last cur # c # cs) = last cur # spaced_at_boundaries (c # cs)"
      using False c by (simp add: camel_boundary_plain)
    moreover have "cur = butlast cur @ [last cur]" using Cons.prems(2) by simp
    ultimately show ?thesis using j by (metis append_Cons append_Nil append_assoc)
  qed
qed

lemma camel_case_split_spaced:
  "NL \<notin> set s \<Longrightarrow> camel_case_split s = spaced_at_boundaries s"
proof (cases s)
  case Nil
  then show ?thesis by (simp add: camel_case_split_def)
next
  case (Cons c cs)
  assume "NL \<notin> set s"
  then have c: "c \<noteq> NL" and cs: "NL \<notin> set cs" using Cons by auto
  have "camel_matches [] (c # cs) = camel_matches [c] cs" using c by simp
  then show ?thesis
    unfolding camel_case_split_def Cons using camel_matches_spaced[OF cs, of "[c]"] by simp
qed

lemma chapter_of_no_underscore: "95 \<notin> set ch \<Longrightarrow> chapter_of ch = (asc ''0'', ch)"
  by (simp add: chapter_of_def)

lemma chapter_of_underscore:
  "95 \<notin> set idx \<Longrightarrow>
   chapter_of (idx @ [95] @ rest) = (idx, map (\<lambda>x. if x = 95 then 32 else x) rest)"
proof -
  assume n: "95 \<notin> set idx"
  have t: "takeWhile (\<lambda>x. x \<noteq> 95) (idx @ [95] @ rest) = idx"
    using n by (induction idx) auto
  have d: "dropWhile (\<lambda>x. x \<noteq> 95) (idx @ [95] @ rest) = 95 # rest"
    using n by (induction idx) auto
  show ?thesis unfolding chapter_of_def t d by simp
qed

lemma takeWhile_nonempty: "takeWhile P xs \<noteq> [] \<longleftrightarrow> xs \<noteq> [] \<and> P (hd xs)"
  by (cases xs) auto

lemma part_token_at_0:
  "part_token_at ud (c # cs) 0 \<longleftrightarrow>
     ci_startswith (c # cs) (asc ''part'') \<and> takeWhile (is_digit ud) (drop 4 (c # cs)) \<noteq> []"
proof -
  have "takeWhile (is_digit ud) (drop 4 (c # cs)) \<noteq> [] \<longleftrightarrow>
          4 < length (c # cs) \<and> is_digit ud ((c # cs) ! 4)"
    unfolding takeWhile_nonempty by (auto simp: hd_drop_conv_nth)
  then show ?thesis by (simp add: part_token_at_def)
qed

lemma part_token_at_Suc: "part_token_at ud (c # cs) (Suc i) \<longleftrightarrow> part_token_at ud cs i"
  by (simp add: part_token_at_def add.commute)

lemma search_part_none: "\<forall>i. \<not> part_token_at ud xs i \<Longrightarrow> search_part ud xs = None"
proof (induction xs)
  case Nil
  then show ?case by simp
next
  case (Cons c cs)
  have z: "\<not> part_token_at ud (c # cs) 0" using Cons.prems by blast
  have "\<forall>i. \<not> part_token_at ud cs i" using Cons.prems part_token_at_Suc by blast
  then have "search_part ud cs = None" by (rule Cons.IH)
  then show ?case using z unfolding part_token_at_0 by auto
qed

lemma search_part_first:
  "part_token_at ud xs i \<Longrightarrow> \<forall>j<i. \<not> part_token_at ud xs j \<Longrightarrow>
   search_part ud xs = Some (takeWhile (is_digit ud) (drop (i + 4) xs))"
proof (induction xs arbitrary: i)
  case Nil
  then show ?case by (simp add: part_token_at_def)
next
  case (Cons c cs)
  show ?case
  proof (cases i)
    case 0
    then have "part_token_at ud (c # cs) 0" using Cons.prems(1) by simp
    then show ?thesis using 0 unfolding part_token_at_0 by simp
  next
    case (Suc k)
    have z: "\<not> part_token_at ud (c # cs) 0" using Cons.prems(2) Suc by blast
    have a: "part_token_at ud cs k" using Cons.prems(1) Suc part_token_at_Suc by blast
    have b: "\<forall>j<k. \<not> part_token_at ud cs j"
    proof (intro allI impI)
      fix j assume "j < k"
      then have "\<not> part_token_at ud (c # cs) (Suc j)" using Cons.prems(2) Suc by simp
      then show "\<not> part_token_at ud cs j" using part_token_at_Suc by blast
    qed
    have ih: "search_part ud cs = Some (takeWhile (is_digit ud) (drop (k + 4) cs))"
      using Cons.IH[OF a b] .
    have "Suc k + 4 = Suc (k + 4)" by simp
    then have d: "drop (i + 4) (c # cs) = drop (k + 4) cs"
      unfolding Suc by (simp only: drop_Suc_Cons)
    have "search_part ud (c # cs) = search_part ud cs"
      using z unfolding part_token_at_0 by auto
    then show ?thesis unfolding d ih .
  qed
qed

lemma py_int_one: "py_int lim ud (asc ''1'') = Some 1"
  by (auto simp: py_int_def py_decimal_def asc_def)

lemma py_int_within:
  "lim = 0 \<or> length ds \<le> lim \<Longrightarrow> \<exists>n. py_int lim ud ds = Some n"
  by (auto simp: py_int_def)

lemma py_int_beyond:
  "lim \<noteq> 0 \<Longrightarrow> lim < length ds \<Longrightarrow> py_int lim ud ds = None"
  by (simp add: py_int_def)

lemma parse_path_metadata_unfold:
  "parse_path_metadata lim ud root (root @ book # folder # mid @ [fname]) =
     (case py_int lim ud (case search_part ud fname of None \<Rightarrow> asc ''1'' | Some d \<Rightarrow> d) of
        None \<Rightarrow> None
      | Some n \<Rightarrow>
          Some \<lparr>book_name = camel_case_split book, chapter_index = fst (chapter_of folder),
                chapter_name = snd (chapter_of folder), part_index = n, source_file = fname,
                hierarchy_string =
                  camel_case_split book @ asc '' > '' @ fst (chapter_of folder) @ asc ''. '' @
                  snd (chapter_of folder) @ asc '' > Part '' @
                  (case search_part ud fname of None \<Rightarrow> asc ''1'' | Some d \<Rightarrow> d)\<rparr>)"
  by (cases "chapter_of folder")
     (simp add: parse_path_metadata_def relative_to_def Let_def split: option.splits)

lemma parse_path_metadata_digit_limit:
  "part_token_at ud fname i \<Longrightarrow> \<forall>j<i. \<not> part_token_at ud fname j \<Longrightarrow> lim \<noteq> 0 \<Longrightarrow>
   lim < length (takeWhile (is_digit ud) (drop (i + 4) fname)) \<Longrightarrow>
   parse_path_metadata lim ud root (root @ book # folder # mid @ [fname]) = None"
  unfolding parse_path_metadata_unfold
  using search_part_first[of ud fname i] py_int_beyond[of lim] by simp

text \<open>
  C5 (as amended). A path under the corpus root with book segment \<open>book\<close>, chapter folder
  \<open>folder\<close>, any further segments and file name \<open>fname\<close>, the file name no longer than
  the interpreter's limit on the digits of an integer string, resolves to metadata with
  that file name as source file and:
  the book name is the book segment with a space inserted at every boundary (an ASCII
  lower-case letter followed by an upper-case one, or an upper-case letter followed by an
  upper-case letter and then a lower-case one), provided the segment holds no newline;
  the chapter index is \<open>"0"\<close> and the chapter name the folder when the folder holds no
  underscore, and otherwise they are the text before the first underscore and the text
  after it with its underscores turned into spaces;
  the part index is 1 when no \<open>part\<close> token (in any case) with a digit after it occurs in
  the file name, and otherwise the number read from the digits after the first such token;
  the hierarchy string is \<open>book > index. name > Part digits\<close>.
  A path of relative depth less than 3 is invalid.
\<close>

theorem parse_path_metadata_resolves:
  "(lim = 0 \<or> length fname \<le> lim \<longrightarrow>
    (\<exists>m. parse_path_metadata lim ud root (root @ book # folder # mid @ [fname]) = Some m \<and>
        source_file m = fname \<and>
        (NL \<notin> set book \<longrightarrow> book_name m = spaced_at_boundaries book) \<and>
        (95 \<notin> set folder \<longrightarrow> chapter_index m = asc ''0'' \<and> chapter_name m = folder) \<and>
        (\<forall>idx rest. folder = idx @ [95] @ rest \<and> 95 \<notin> set idx \<longrightarrow>
           chapter_index m = idx \<and>
           chapter_name m = map (\<lambda>x. if x = 95 then 32 else x) rest) \<and>
        ((\<forall>i. \<not> part_token_at ud fname i) \<longrightarrow>
           part_index m = 1 \<and>
           hierarchy_string m =
             book_name m @ asc '' > '' @ chapter_index m @ asc ''. '' @ chapter_name m @
             asc '' > Part 1'') \<and>
        (\<forall>i. part_token_at ud fname i \<and> (\<forall>j<i. \<not> part_token_at ud fname j) \<longrightarrow>
           py_int lim ud (takeWhile (is_digit ud) (drop (i + 4) fname)) = Some (part_index m) \<and>
           hierarchy_string m =
             book_name m @ asc '' > '' @ chapter_index m @ asc ''. '' @ chapter_name m @
             asc '' > Part '' @ takeWhile (is_digit ud) (drop (i + 4) fname)))) \<and>
   (length parts < 3 \<longrightarrow> parse_path_metadata lim ud root (root @ parts) = None)"
proof (intro conjI impI)
  assume lim: "lim = 0 \<or> length fname \<le> lim"
  define ch where "ch = chapter_of folder"
  define part where "part = (case search_part ud fname of None \<Rightarrow> asc ''1'' | Some d \<Rightarrow> d)"
  have len: "lim = 0 \<or> length part \<le> lim"
  proof (cases "search_part ud fname")
    case None
    then have "part = asc ''1''" by (simp add: part_def)
    then have "length part = 1" by (simp add: asc_def)
    then show ?thesis using lim by (cases fname) auto
  next
    case (Some d)
    then have p: "part = d" by (simp add: part_def)
    have "\<exists>i. part_token_at ud fname i \<and> (\<forall>j<i. \<not> part_token_at ud fname j)"
    proof (rule ccontr)
      assume n: "\<not> (\<exists>i. part_token_at ud fname i \<and> (\<forall>j<i. \<not> part_token_at ud fname j))"
      have "\<forall>i. \<not> part_token_at ud fname i"
      proof
        fix i show "\<not> part_token_at ud fname i"
        proof (induction i rule: less_induct)
          case (less k)
          then show ?case using n by blast
        qed
      qed
      then have "search_part ud fname = None" by (rule search_part_none)
      then show False using Some by simp
    qed
    then obtain i where "part_token_at ud fname i" "\<forall>j<i. \<not> part_token_at ud fname j" by blast
    then have "search_part ud fname = Some (takeWhile (is_digit ud) (drop (i + 4) fname))"
      by (rule search_part_first)
    then have "d = takeWhile (is_digit ud) (drop (i + 4) fname)" using Some by simp
    then have "length d \<le> length fname"
      using length_takeWhile_le[of "is_digit ud" "drop (i + 4) fname"] by simp
    then show ?thesis using lim p by auto
  qed
  then obtain n where n: "py_int lim ud part = Some n" using py_int_within by blast
  define m where "m = \<lparr>book_name = camel_case_split book, chapter_index = fst ch,
      chapter_name = snd ch, part_index = n, source_file = fname,
      hierarchy_string = camel_case_split book @ asc '' > '' @ fst ch @ asc ''. '' @ snd ch @
                        asc '' > Part '' @ part\<rparr>"
  have r: "parse_path_metadata lim ud root (root @ book # folder # mid @ [fname]) = Some m"
    unfolding parse_path_metadata_unfold using n by (simp add: m_def ch_def part_def)
  have a: "source_file m = fname" by (simp add: m_def)
  have b: "NL \<notin> set book \<longrightarrow> book_name m = spaced_at_boundaries book"
    by (simp add: m_def camel_case_split_spaced)
  have c: "95 \<notin> set folder \<longrightarrow> chapter_index m = asc ''0'' \<and> chapter_name m = folder"
    by (simp add: m_def ch_def chapter_of_no_underscore)
  have d: "\<forall>idx rest. folder = idx @ [95] @ rest \<and> 95 \<notin> set idx \<longrightarrow>
           chapter_index m = idx \<and> chapter_name m = map (\<lambda>x. if x = 95 then 32 else x) rest"
  proof (intro allI impI)
    fix idx rest assume h: "folder = idx @ [95] @ rest \<and> 95 \<notin> set idx"
    then have "chapter_of folder = (idx, map (\<lambda>x. if x = 95 then 32 else x) rest)"
      using chapter_of_underscore[of idx rest] by simp
    then show "chapter_index m = idx \<and> chapter_name m = map (\<lambda>x. if x = 95 then 32 else x) rest"
      by (simp add: m_def ch_def)
  qed
  have e: "(\<forall>i. \<not> part_token_at ud fname i) \<longrightarrow>
           part_index m = 1 \<and>
           hierarchy_string m =
             book_name m @ asc '' > '' @ chapter_index m @ asc ''. '' @ chapter_name m @
             asc '' > Part 1''"
  proof
    assume "\<forall>i. \<not> part_token_at ud fname i"
    then have "search_part ud fname = None" by (rule search_part_none)
    then have p: "part = asc ''1''" by (simp add: part_def)
    have "n = 1" using n unfolding p py_int_one by simp
    then show "part_index m = 1 \<and>
           hierarchy_string m =
             book_name m @ asc '' > '' @ chapter_index m @ asc ''. '' @ chapter_name m @
             asc '' > Part 1''"
      by (simp add: m_def p) (simp add: asc_def)
  qed
  have f: "\<forall>i. part_token_at ud fname i \<and> (\<forall>j<i. \<not> part_token_at ud fname j) \<longrightarrow>
           py_int lim ud (takeWhile (is_digit ud) (drop (i + 4) fname)) = Some (part_index m) \<and>
           hierarchy_string m =
             book_name m @ asc '' > '' @ chapter_index m @ asc ''. '' @ chapter_name m @
             asc '' > Part '' @ takeWhile (is_digit ud) (drop (i + 4) fname)"
  proof (intro allI impI)
    fix i assume h: "part_token_at ud fname i \<and> (\<forall>j<i. \<not> part_token_at ud fname j)"
    then have "search_part ud fname = Some (takeWhile (is_digit ud) (drop (i + 4) fname))"
      using search_part_first[of ud fname i] by blast
    then have p: "part = takeWhile (is_digit ud) (drop (i + 4) fname)" by (simp add: part_def)
    show "py_int lim ud (takeWhile (is_digit ud) (drop (i + 4) fname)) = Some (part_index m) \<and>
           hierarchy_string m =
             book_name m @ asc '' > '' @ chapter_index m @ asc ''. '' @ chapter_name m @
             asc '' > Part '' @ takeWhile (is_digit ud) (drop (i + 4) fname)"
      using n by (simp add: m_def p)
  qed
  show "\<exists>m. parse_path_metadata lim ud root (root @ book # folder # mid @ [fname]) = Some m \<and>
        source_file m = fname \<and>
        (NL \<notin> set book \<longrightarrow> book_name m = spaced_at_boundaries book) \<and>
        (95 \<notin> set folder \<longrightarrow> chapter_index m = asc ''0'' \<and> chapter_name m = folder) \<and>
        (\<forall>idx rest. folder = idx @ [95] @ rest \<and> 95 \<notin> set idx \<longrightarrow>
           chapter_index m = idx \<and>
           chapter_name m = map (\<lambda>x. if x = 95 then 32 else x) rest) \<and>
        ((\<forall>i. \<not> part_token_at ud fname i) \<longrightarrow>
           part_index m = 1 \<and>
           hierarchy_string m =
             book_name m @ asc '' > '' @ chapter_index m @ asc ''. '' @ chapter_name m @
             asc '' > Part 1'') \<and>
        (\<forall>i. part_token_at ud fname i \<and> (\<forall>j<i. \<not> part_token_at ud fname j) \<longrightarrow>
           py_int lim ud (takeWhile (is_digit ud) (drop (i + 4) fname)) = Some (part_index m) \<and>
           hierarchy_string m =
             book_name m @ asc '' > '' @ chapter_index m @ asc ''. '' @ chapter_name m @
             asc '' > Part '' @ takeWhile (is_digit ud) (drop (i + 4) fname))"
    using r a b c d e f by blast
next
  assume "length parts < 3"
  then show "parse_path_metadata lim ud root (root @ parts) = None"
    by (simp add: parse_path_metadata_def relative_to_def)
qed

lemmas path_eval = asc_def NL_def camel_case_split_def camel_boundary_def is_ascii_lower_def
  is_ascii_upper_def chapter_of_def py_decimal_def is_digit_def py_int_def relative_to_def
  parse_path_metadata_def ci_match_def

text \<open>
  The path \<open>Root/AdultIsthmicSpondylolisthesis/B_Diagnosis_Imaging/part2.md\<close> under \<open>Root\<close>
  resolves to the book \<open>Adult Isthmic Spondylolisthesis\<close>, chapter index \<open>B\<close>, chapter
  name \<open>Diagnosis Imaging\<close>, part index 2 and the hierarchy string
  \<open>Adult Isthmic Spondylolisthesis > B. Diagnosis Imaging > Part 2\<close>; the path
  \<open>Root/B/part2.md\<close> of depth 2 is invalid.
\<close>

theorem parse_path_metadata_resolves_witness:
  "NL \<notin> set (asc ''AdultIsthmicSpondylolisthesis'') \<and>
   part_token_at ascii_digits_only (asc ''part2.md'') 0 \<and>
   (\<exists>m. parse_path_metadata 4300 ascii_digits_only example_root example_path = Some m \<and>
        book_name m = asc ''Adult Isthmic Spondylolisthesis'' \<and>
        chapter_index m = asc ''B'' \<and>
        chapter_name m = asc ''Diagnosis Imaging'' \<and>
        part_index m = 2 \<and>
        source_file m = asc ''part2.md'' \<and>
        hierarchy_string m =
          asc ''Adult Isthmic Spondylolisthesis > B. Diagnosis Imaging > Part 2'') \<and>
   parse_path_metadata 4300 ascii_digits_only example_root (example_root @ [asc ''B'', asc ''part2.md''])
     = None"
proof -
  let ?book = "asc ''AdultIsthmicSpondylolisthesis''"
  let ?chapter = "asc ''B_Diagnosis_Imaging''"
  let ?fname = "asc ''part2.md''"
  have h1: "NL \<notin> set ?book" by (simp add: asc_def NL_def)
  have h2: "?chapter = asc ''B'' @ [95] @ asc ''Diagnosis_Imaging'' \<and> 95 \<notin> set (asc ''B'')"
    by (simp add: asc_def)
  have h3: "part_token_at ascii_digits_only ?fname 0"
    by (simp add: part_token_at_def path_eval ascii_digits_only_def)
  have h4: "\<forall>j<0::nat. \<not> part_token_at ascii_digits_only ?fname j" by simp
  have h5: "length [asc ''B'', asc ''part2.md''] < 3" by simp
  have p: "example_path = example_root @ ?book # ?chapter # [] @ [?fname]"
    by (simp add: example_path_def example_root_def)
  note t = parse_path_metadata_resolves[where lim = 4300 and ud = ascii_digits_only and root = example_root
      and book = "?book" and folder = "?chapter" and mid = "[]" and fname = "?fname"
      and parts = "[asc ''B'', asc ''part2.md'']"]
  have h0: "(4300::nat) = 0 \<or> length ?fname \<le> 4300" by (simp add: asc_def)
  from t h0 obtain m where
    r: "parse_path_metadata 4300 ascii_digits_only example_root
          (example_root @ ?book # ?chapter # [] @ [?fname]) = Some m"
    and sf: "source_file m = ?fname"
    and bk: "NL \<notin> set ?book \<longrightarrow> book_name m = spaced_at_boundaries ?book"
    and ch: "\<forall>idx rest. ?chapter = idx @ [95] @ rest \<and> 95 \<notin> set idx \<longrightarrow>
           chapter_index m = idx \<and>
           chapter_name m = map (\<lambda>x. if x = 95 then 32 else x) rest"
    and pt: "\<forall>i. part_token_at ascii_digits_only ?fname i \<and>
               (\<forall>j<i. \<not> part_token_at ascii_digits_only ?fname j) \<longrightarrow>
           py_int 4300 ascii_digits_only
             (takeWhile (is_digit ascii_digits_only) (drop (i + 4) ?fname)) = Some (part_index m) \<and>
           hierarchy_string m =
             book_name m @ asc '' > '' @ chapter_index m @ asc ''. '' @ chapter_name m @
             asc '' > Part '' @ takeWhile (is_digit ascii_digits_only) (drop (i + 4) ?fname)"
    by blast
  from t have n: "parse_path_metadata 4300 ascii_digits_only example_root
      (example_root @ [asc ''B'', asc ''part2.md'']) = None"
    using h5 by blast
  have b1: "book_name m = spaced_at_boundaries ?book" using bk h1 by blast
  have b2: "spaced_at_boundaries ?book = asc ''Adult Isthmic Spondylolisthesis''"
    by (simp add: path_eval)
  have c1: "chapter_index m = asc ''B'' \<and>
            chapter_name m = map (\<lambda>x. if x = 95 then 32 else x) (asc ''Diagnosis_Imaging'')"
    using ch h2 by blast
  have c2: "map (\<lambda>x. if x = 95 then 32 else x) (asc ''Diagnosis_Imaging'') = asc ''Diagnosis Imaging''"
    by (simp add: asc_def)
  have p1: "py_int 4300 ascii_digits_only
             (takeWhile (is_digit ascii_digits_only) (drop (0 + 4) ?fname)) = Some (part_index m) \<and>
           hierarchy_string m =
             book_name m @ asc '' > '' @ chapter_index m @ asc ''. '' @ chapter_name m @
             asc '' > Part '' @ takeWhile (is_digit ascii_digits_only) (drop (0 + 4) ?fname)"
    using pt h3 h4 by blast
  have p2: "takeWhile (is_digit ascii_digits_only) (drop (0 + 4) ?fname) = asc ''2''"
    by (simp add: path_eval ascii_digits_only_def)
  have p3: "py_int 4300 ascii_digits_only (asc ''2'') = Some 2"
    by (simp add: path_eval ascii_digits_only_def)
  have hs: "hierarchy_string m =
          asc ''Adult Isthmic Spondylolisthesis > B. Diagnosis Imaging > Part 2''"
    using p1 unfolding p2 b1 b2 using c1 unfolding c2 by (simp add: asc_def)
  have "parse_path_metadata 4300 ascii_digits_only example_root example_path = Some m"
    using r unfolding p .
  then show ?thesis using h1 h3 sf b1 b2 c1 c2 p1 p2 p3 hs n by simp
qed

text \<open>
  C5 as stated fails for a book segment that holds a newline: \<open>.\<close> in the pattern of
  \<open>_camel_case_split\<close> matches no newline, so for the segment \<open>"A\\nB"\<close> the only match is
  \<open>"B"\<close> and the book name is \<open>"B"\<close>, although the segment has no camel-case boundary and
  splitting it at its boundaries leaves it as it is.
\<close>

theorem newline_segment_counterexample:
  "map_option book_name (parse_path_metadata 4300 ascii_digits_only example_root newline_path)
     = Some [66] \<and>
   spaced_at_boundaries [65, NL, 66] = [65, NL, 66]"
  by (simp add: newline_path_def example_root_def path_eval Let_def ascii_digits_only_def)

end
